theory Spec2Isabelle
  imports Main "HOL-Library.Word"
begin

unbundle bit_operations_syntax

section \<open>Machine types and C arrays\<close>

text \<open>
  The firmware runs on ESP8266/ESP32: \<open>byte\<close> and \<open>uint8_t\<close> are 8 bits wide,
  \<open>unsigned int\<close> and \<open>uint32_t\<close> are 32 bits wide, \<open>int\<close> is 32 bits wide.
  A C \<open>char\<close> is an Isabelle \<open>char\<close> (8 bits); the string terminator is
  \<open>CHR 0x00\<close>.
\<close>

type_synonym byte = "8 word"
type_synonym uint8_t = "8 word"
type_synonym uint32_t = "32 word"

text \<open>
  A C array is a list of its declared size. A read or a write outside the array is
  undefined behaviour in the source; the model makes it the error value.
\<close>

datatype error = OutOfBounds

definition array_get :: "'a list \<Rightarrow> nat \<Rightarrow> error + 'a" where
  "array_get a i = (if i < length a then Inr (a ! i) else Inl OutOfBounds)"

definition array_set :: "'a list \<Rightarrow> nat \<Rightarrow> 'a \<Rightarrow> error + 'a list" where
  "array_set a i v = (if i < length a then Inr (a[i := v]) else Inl OutOfBounds)"

text \<open>The C string a \<open>char *\<close> points to: the characters before the first terminator.\<close>

definition c_str :: "char list \<Rightarrow> string" where
  "c_str buffer = takeWhile (\<lambda>c. c \<noteq> CHR 0x00) buffer"

section \<open>Payload codec\<close>

text \<open>
  The expression \<open>nib < 0xA ? '0' + nib : 'A' + nib - 0xA\<close>, evaluated in \<open>int\<close>
  and stored into a \<open>char\<close>.
\<close>

definition nibble_char :: "byte \<Rightarrow> char" where
  "nibble_char nib =
     (if nib < 0xA then char_of (of_char CHR ''0'' + uint nib :: int)
      else char_of (of_char CHR ''A'' + uint nib - 0xA :: int))"

text \<open>
  \<open>toHexString(char buffer[], byte data[], uint8_t len)\<close> of the PN532 firmwares.
  The loop counter \<open>i\<close> is a \<open>uint8_t\<close>; in \<open>buffer[i*2+0]\<close> it is promoted to
  \<open>int\<close>, so the index does not wrap.
\<close>

function toHexString_loop :: "char list \<Rightarrow> byte list \<Rightarrow> uint8_t \<Rightarrow> uint8_t \<Rightarrow> error + char list" where
  "toHexString_loop buffer data len i =
     (if i < len then
        (case array_get data (unat i) of
           Inl e \<Rightarrow> Inl e
         | Inr d \<Rightarrow>
             (let nib1 = (drop_bit 4 d) AND 0x0F;
                  nib2 = (drop_bit 0 d) AND 0x0F
              in case array_set buffer (unat i * 2 + 0) (nibble_char nib1) of
                   Inl e \<Rightarrow> Inl e
                 | Inr buffer1 \<Rightarrow>
                     (case array_set buffer1 (unat i * 2 + 1) (nibble_char nib2) of
                        Inl e \<Rightarrow> Inl e
                      | Inr buffer2 \<Rightarrow> toHexString_loop buffer2 data len (i + 1))))
      else Inr buffer)"
  by pat_completeness auto
termination
proof (relation "measure (\<lambda>(buffer, data, len, i). unat len - unat i)")
  show "wf (measure (\<lambda>(buffer, data, len, i). unat len - unat i))"
    by simp
next
  fix buffer :: "char list" and data :: "byte list" and len i :: uint8_t
    and d :: byte and nib1 nib2 :: byte and buffer1 buffer2 :: "char list"
  assume lt: "i < len"
  have ne: "1 + i \<noteq> 0"
  proof
    assume "1 + i = 0"
    then have "i = - 1" by (simp add: add_eq_0_iff)
    with lt show False by simp
  qed
  have "unat (i + 1) = Suc (unat i)"
    using unatSuc [OF ne] by (simp add: add.commute)
  moreover have "unat i < unat len"
    using lt by (simp add: word_less_nat_alt)
  ultimately show "((buffer2, data, len, i + 1), (buffer, data, len, i))
      \<in> measure (\<lambda>(buffer, data, len, i). unat len - unat i)"
    by simp
qed

definition toHexString :: "char list \<Rightarrow> byte list \<Rightarrow> uint8_t \<Rightarrow> error + char list" where
  "toHexString buffer data len =
     (case toHexString_loop buffer data len 0 of
        Inl e \<Rightarrow> Inl e
      | Inr buffer' \<Rightarrow> array_set buffer' (unat len * 2) (CHR 0x00))"

text \<open>
  \<open>toAsciiString(char buffer[], byte data[], uint8_t len)\<close>; \<open>(char)data[i]\<close> keeps
  the byte's eight bits.
\<close>

function toAsciiString_loop :: "char list \<Rightarrow> byte list \<Rightarrow> uint8_t \<Rightarrow> uint8_t \<Rightarrow> error + char list" where
  "toAsciiString_loop buffer data len i =
     (if i < len then
        (case array_get data (unat i) of
           Inl e \<Rightarrow> Inl e
         | Inr d \<Rightarrow>
             (case (if d \<le> 0x1F
                    then array_set buffer (unat i) CHR ''.''
                    else array_set buffer (unat i) (char_of (unat d))) of
                Inl e \<Rightarrow> Inl e
              | Inr buffer1 \<Rightarrow> toAsciiString_loop buffer1 data len (i + 1)))
      else Inr buffer)"
  by pat_completeness auto
termination
proof (relation "measure (\<lambda>(buffer, data, len, i). unat len - unat i)")
  show "wf (measure (\<lambda>(buffer, data, len, i). unat len - unat i))"
    by simp
next
  fix buffer :: "char list" and data :: "byte list" and len i :: uint8_t
    and d :: byte and buffer1 :: "char list"
  assume lt: "i < len"
  have ne: "1 + i \<noteq> 0"
  proof
    assume "1 + i = 0"
    then have "i = - 1" by (simp add: add_eq_0_iff)
    with lt show False by simp
  qed
  have "unat (i + 1) = Suc (unat i)"
    using unatSuc [OF ne] by (simp add: add.commute)
  moreover have "unat i < unat len"
    using lt by (simp add: word_less_nat_alt)
  ultimately show "((buffer1, data, len, i + 1), (buffer, data, len, i))
      \<in> measure (\<lambda>(buffer, data, len, i). unat len - unat i)"
    by simp
qed

definition toAsciiString :: "char list \<Rightarrow> byte list \<Rightarrow> uint8_t \<Rightarrow> error + char list" where
  "toAsciiString buffer data len =
     (case toAsciiString_loop buffer data len 0 of
        Inl e \<Rightarrow> Inl e
      | Inr buffer' \<Rightarrow> array_set buffer' (unat len) (CHR 0x00))"

text \<open>
  \<open>toHexString(char buffer[], byte data[], unsigned int len)\<close> of the MFRC522 firmware
  (\<open>src/main.cpp\<close>). Counter and length are \<open>unsigned int\<close>, so \<open>i*2+0\<close>,
  \<open>i*2+1\<close> and \<open>len*2\<close> are computed modulo \<open>2^32\<close>.
\<close>

function toHexString_uint_loop :: "char list \<Rightarrow> byte list \<Rightarrow> uint32_t \<Rightarrow> uint32_t \<Rightarrow> error + char list" where
  "toHexString_uint_loop buffer data len i =
     (if i < len then
        (case array_get data (unat i) of
           Inl e \<Rightarrow> Inl e
         | Inr d \<Rightarrow>
             (let nib1 = (drop_bit 4 d) AND 0x0F;
                  nib2 = (drop_bit 0 d) AND 0x0F
              in case array_set buffer (unat (i * 2 + 0)) (nibble_char nib1) of
                   Inl e \<Rightarrow> Inl e
                 | Inr buffer1 \<Rightarrow>
                     (case array_set buffer1 (unat (i * 2 + 1)) (nibble_char nib2) of
                        Inl e \<Rightarrow> Inl e
                      | Inr buffer2 \<Rightarrow> toHexString_uint_loop buffer2 data len (i + 1))))
      else Inr buffer)"
  by pat_completeness auto
termination
proof (relation "measure (\<lambda>(buffer, data, len, i). unat len - unat i)")
  show "wf (measure (\<lambda>(buffer, data, len, i). unat len - unat i))"
    by simp
next
  fix buffer :: "char list" and data :: "byte list" and len i :: uint32_t
    and d :: byte and nib1 nib2 :: byte and buffer1 buffer2 :: "char list"
  assume lt: "i < len"
  have ne: "1 + i \<noteq> 0"
  proof
    assume "1 + i = 0"
    then have "i = - 1" by (simp add: add_eq_0_iff)
    with lt show False by simp
  qed
  have "unat (i + 1) = Suc (unat i)"
    using unatSuc [OF ne] by (simp add: add.commute)
  moreover have "unat i < unat len"
    using lt by (simp add: word_less_nat_alt)
  ultimately show "((buffer2, data, len, i + 1), (buffer, data, len, i))
      \<in> measure (\<lambda>(buffer, data, len, i). unat len - unat i)"
    by simp
qed

definition toHexString_uint :: "char list \<Rightarrow> byte list \<Rightarrow> uint32_t \<Rightarrow> error + char list" where
  "toHexString_uint buffer data len =
     (case toHexString_uint_loop buffer data len 0 of
        Inl e \<Rightarrow> Inl e
      | Inr buffer' \<Rightarrow> array_set buffer' (unat (len * 2)) (CHR 0x00))"



section \<open>Status records\<close>

text \<open>
  An ArduinoJson document. \<open>json[key] = value\<close> replaces the member when the key
  exists and appends it otherwise. A \<open>char *\<close> assigned to a member is copied into
  the document, so a later write to the same scratch buffer does not change it. The
  document's capacity is not modelled.
\<close>

datatype Json = JString string | JInt int | JArray "Json list" | JObject "(string \<times> Json) list"

fun json_set :: "(string \<times> Json) list \<Rightarrow> string \<Rightarrow> Json \<Rightarrow> (string \<times> Json) list" where
  "json_set [] k v = [(k, v)]"
| "json_set ((k', v') # ms) k v = (if k' = k then (k, v) # ms else (k', v') # json_set ms k v)"

text \<open>\<open>containsKey\<close> and member lookup on a document's members.\<close>

definition containsKey :: "(string \<times> Json) list \<Rightarrow> string \<Rightarrow> bool" where
  "containsKey ms k = (k \<in> set (map fst ms))"

definition json_get :: "(string \<times> Json) list \<Rightarrow> string \<Rightarrow> Json option" where
  "json_get ms k = map_of ms k"

section \<open>The C library calls of the dedup tracker\<close>

definition memset :: "byte list \<Rightarrow> byte \<Rightarrow> nat \<Rightarrow> error + byte list" where
  "memset dst v n =
     (if n \<le> length dst then Inr (replicate n v @ drop n dst) else Inl OutOfBounds)"

definition memcpy :: "byte list \<Rightarrow> byte list \<Rightarrow> nat \<Rightarrow> error + byte list" where
  "memcpy dst src n =
     (if n \<le> length dst \<and> n \<le> length src then Inr (take n src @ drop n dst)
      else Inl OutOfBounds)"

text \<open>The sign of the first differing byte pair, bytes compared as unsigned.\<close>

fun memcmp_bytes :: "byte list \<Rightarrow> byte list \<Rightarrow> int" where
  "memcmp_bytes (a # as) (b # bs) =
     (if a = b then memcmp_bytes as bs else if a < b then - 1 else 1)"
| "memcmp_bytes _ _ = 0"

definition memcmp :: "byte list \<Rightarrow> byte list \<Rightarrow> nat \<Rightarrow> error + int" where
  "memcmp a b n =
     (if n \<le> length a \<and> n \<le> length b then Inr (memcmp_bytes (take n a) (take n b))
      else Inl OutOfBounds)"

section \<open>PN532 firmware: tag model\<close>

text \<open>
  What the NFC library's \<open>NfcTag\<close> and \<open>NdefRecord\<close> objects hold. \<open>getUidLength\<close>
  is the number of UID bytes; \<open>getUid(uid, n)\<close> copies the UID bytes into the
  caller's array; \<open>hasNdefMessage\<close> is \<open>ndefMessage \<noteq> None\<close>.
\<close>

record NdefRecord =
  tnf :: byte
  record_type :: string
  record_id :: string
  payload :: "byte list"
  encodedSize :: int

record NfcTag =
  tag_uid :: "byte list"
  tagType :: string
  ndefMessage :: "NdefRecord list option"

definition getUidLength :: "NfcTag \<Rightarrow> nat" where
  "getUidLength tag = length (tag_uid tag)"

definition getUid :: "NfcTag \<Rightarrow> byte list \<Rightarrow> nat \<Rightarrow> error + byte list" where
  "getUid tag uid n = memcpy uid (tag_uid tag) (min (getUidLength tag) n)"

definition MAX_UID_BYTES :: nat where
  "MAX_UID_BYTES = 8"

definition DEFAULT_TAG_READ_INTERVAL_MS :: uint32_t where
  "DEFAULT_TAG_READ_INTERVAL_MS = 200"

text \<open>
  The body of the record loop of \<open>publishTag\<close> for one record. Both lengths pass
  through the \<open>uint8_t len\<close> parameter of the codec, which keeps the low eight bits
  of \<open>payloadLength\<close>. The variable-length array \<open>payload\<close> holds the record's
  payload bytes.
\<close>

definition publishTag_record :: "char list \<Rightarrow> NdefRecord \<Rightarrow> error + (char list \<times> Json)" where
  "publishTag_record buffer ndefRecord =
     (let payloadLength = length (payload ndefRecord);
          payload = payload ndefRecord;
          recordJson = json_set [] ''tnf'' (JInt (uint (tnf ndefRecord)));
          recordJson = json_set recordJson ''type'' (JString (record_type ndefRecord));
          recordJson = json_set recordJson ''id'' (JString (record_id ndefRecord));
          recordJson = json_set recordJson ''bytes'' (JInt (encodedSize ndefRecord))
      in case toHexString buffer payload (of_nat payloadLength) of
           Inl e \<Rightarrow> Inl e
         | Inr buffer1 \<Rightarrow>
             (let payloadJson = json_set [] ''hex'' (JString (c_str buffer1))
              in case toAsciiString buffer1 payload (of_nat payloadLength) of
                   Inl e \<Rightarrow> Inl e
                 | Inr buffer2 \<Rightarrow>
                     (let payloadJson = json_set payloadJson ''ascii'' (JString (c_str buffer2))
                      in Inr (buffer2,
                              JObject (json_set recordJson ''payload'' (JObject payloadJson))))))"

fun publishTag_records :: "char list \<Rightarrow> NdefRecord list \<Rightarrow> error + Json list" where
  "publishTag_records buffer [] = Inr []"
| "publishTag_records buffer (r # rs) =
     (case publishTag_record buffer r of
        Inl e \<Rightarrow> Inl e
      | Inr (buffer', recordJson) \<Rightarrow>
          (case publishTag_records buffer' rs of
             Inl e \<Rightarrow> Inl e
           | Inr recordsJson \<Rightarrow> Inr (recordJson # recordsJson)))"

text \<open>
  \<open>publishTag\<close>: the status record handed to \<open>publishStatus\<close>. The local arrays
  \<open>uid[MAX_UID_BYTES]\<close> and \<open>buffer[1024]\<close> are not initialised by the source; every
  cell that is read has been written before, so the model starts them zeroed. The
  record loop counts with a \<open>uint8_t\<close> against the record count, which the NFC
  library keeps at four or less; the model takes the records in order.
\<close>

definition publishTag :: "NfcTag \<Rightarrow> error + Json" where
  "publishTag tag =
     (case getUid tag (replicate MAX_UID_BYTES 0) (getUidLength tag) of
        Inl e \<Rightarrow> Inl e
      | Inr uid \<Rightarrow>
          (case toHexString (replicate 1024 (CHR 0x00)) uid (of_nat (getUidLength tag)) of
             Inl e \<Rightarrow> Inl e
           | Inr buffer \<Rightarrow>
               (let json = json_set [] ''uid'' (JString (c_str buffer));
                    json = json_set json ''type'' (JString (tagType tag))
                in case ndefMessage tag of
                     None \<Rightarrow> Inr (JObject json)
                   | Some records \<Rightarrow>
                       (case publishTag_records buffer records of
                          Inl e \<Rightarrow> Inl e
                        | Inr recordsJson \<Rightarrow>
                            Inr (JObject (json_set json ''records'' (JArray recordsJson)))))))"

section \<open>PN532 firmware: dedup tracker and poll scheduler\<close>

text \<open>The globals of the firmware, with their initial values below.\<close>

record globals =
  tagReadIntervalMs :: uint32_t
  lastTagReadMs :: uint32_t
  lastUid :: "byte list"

definition initial_globals :: globals where
  "initial_globals =
     \<lparr> tagReadIntervalMs = DEFAULT_TAG_READ_INTERVAL_MS,
       lastTagReadMs = 0,
       lastUid = replicate MAX_UID_BYTES 0 \<rparr>"

text \<open>
  \<open>processPN532\<close>. The reader's answer for the cycle is \<open>None\<close> when
  \<open>nfc.tagPresent(5)\<close> is false and \<open>Some tag\<close> for the tag \<open>nfc.read()\<close> returns.
  The result is the new globals and the status records published in the cycle.
\<close>

definition processPN532 :: "NfcTag option \<Rightarrow> globals \<Rightarrow> error + (globals \<times> Json list)" where
  "processPN532 reader g =
     (case reader of
        None \<Rightarrow>
          (case memset (lastUid g) 0 MAX_UID_BYTES of
             Inl e \<Rightarrow> Inl e
           | Inr lastUid' \<Rightarrow> Inr (g\<lparr>lastUid := lastUid'\<rparr>, []))
      | Some tag \<Rightarrow>
          (case getUid tag (replicate MAX_UID_BYTES 0) (getUidLength tag) of
             Inl e \<Rightarrow> Inl e
           | Inr uid \<Rightarrow>
               (case memcmp uid (lastUid g) (getUidLength tag) of
                  Inl e \<Rightarrow> Inl e
                | Inr c \<Rightarrow>
                    if c = 0 then Inr (g, [])
                    else
                      (case memcpy (lastUid g) uid (getUidLength tag) of
                         Inl e \<Rightarrow> Inl e
                       | Inr lastUid' \<Rightarrow>
                           (case publishTag tag of
                              Inl e \<Rightarrow> Inl e
                            | Inr json \<Rightarrow> Inr (g\<lparr>lastUid := lastUid'\<rparr>, [json]))))))"

text \<open>
  \<open>jsonConfig\<close> / \<open>_mqttConfig\<close>. The configuration document maps a key to the value
  \<open>json[key].as<uint32_t>()\<close> when \<open>json.containsKey(key)\<close>.
\<close>

definition jsonConfig :: "(string \<rightharpoonup> uint32_t) \<Rightarrow> globals \<Rightarrow> globals" where
  "jsonConfig json g =
     (case json ''tagReadIntervalMs'' of
        Some v \<Rightarrow> g\<lparr>tagReadIntervalMs := v\<rparr>
      | None \<Rightarrow> g)"

text \<open>
  One pass of \<open>loop\<close>: \<open>now\<close> is what \<open>millis()\<close> returns in the test, \<open>now'\<close> what
  it returns when the timer is reset. The subtraction is in \<open>uint32_t\<close>.
\<close>

definition loop :: "uint32_t \<Rightarrow> uint32_t \<Rightarrow> NfcTag option \<Rightarrow> globals \<Rightarrow> error + (globals \<times> Json list)" where
  "loop now now' reader g =
     (if now - lastTagReadMs g > tagReadIntervalMs g then
        (case processPN532 reader g of
           Inl e \<Rightarrow> Inl e
         | Inr (g', published) \<Rightarrow> Inr (g'\<lparr>lastTagReadMs := now'\<rparr>, published))
      else Inr (g, []))"

text \<open>Consecutive poll cycles: \<open>processPN532\<close> once per reader answer, in order.\<close>

fun poll_cycles :: "NfcTag option list \<Rightarrow> globals \<Rightarrow> error + (globals \<times> Json list)" where
  "poll_cycles [] g = Inr (g, [])"
| "poll_cycles (reader # readers) g =
     (case processPN532 reader g of
        Inl e \<Rightarrow> Inl e
      | Inr (g', published) \<Rightarrow>
          (case poll_cycles readers g' of
             Inl e \<Rightarrow> Inl e
           | Inr (g'', published') \<Rightarrow> Inr (g'', published @ published')))"

section \<open>MFRC522 firmware\<close>

text \<open>
  The MFRC522 driver is an external library. Its enumerations are the library's; its
  calls are the fields of a record, so every theorem holds for any behaviour of the
  chip. \<open>MIFARE_Read page buffer byteCount\<close> returns the status, the contents of the
  18-byte \<open>buffer\<close> after the call and the updated \<open>byteCount\<close>. The buffer is
  written by the driver only; a cell of it is \<open>buffer k\<close>.
\<close>

datatype PICC_Type =
    PICC_TYPE_UNKNOWN | PICC_TYPE_ISO_14443_4 | PICC_TYPE_ISO_18092
  | PICC_TYPE_MIFARE_MINI | PICC_TYPE_MIFARE_1K | PICC_TYPE_MIFARE_4K
  | PICC_TYPE_MIFARE_UL | PICC_TYPE_MIFARE_PLUS | PICC_TYPE_MIFARE_DESFIRE
  | PICC_TYPE_TNP3XXX | PICC_TYPE_NOT_COMPLETE

datatype StatusCode =
    STATUS_OK | STATUS_ERROR | STATUS_COLLISION | STATUS_TIMEOUT | STATUS_NO_ROOM
  | STATUS_INTERNAL_ERROR | STATUS_INVALID | STATUS_CRC_WRONG | STATUS_MIFARE_NACK

record Uid =
  uid_size :: byte
  uidByte :: "byte list"
  sak :: byte

record MFRC522 =
  PICC_GetType :: "byte \<Rightarrow> PICC_Type"
  PICC_GetTypeName :: "PICC_Type \<Rightarrow> string"
  GetStatusCodeName :: "StatusCode \<Rightarrow> string"
  MIFARE_Read :: "byte \<Rightarrow> (nat \<Rightarrow> byte) \<Rightarrow> byte \<Rightarrow> StatusCode \<times> (nat \<Rightarrow> byte) \<times> byte"

text \<open>
  The logger's output is the text written to it; \<open>println\<close> ends the line with
  carriage return and line feed.
\<close>

definition logger_print :: "string \<Rightarrow> string \<Rightarrow> string" where
  "logger_print log s = log @ s"

definition logger_println :: "string \<Rightarrow> string \<Rightarrow> string" where
  "logger_println log s = log @ s @ [CHR 0x0D, CHR 0x0A]"

text \<open>
  The two inner loops of \<open>readData_MIFARE_UL\<close>. The \<open>int\<close> counters \<open>i\<close>, \<open>j\<close>
  and \<open>dataCount\<close> start at 0 and only count up, to at most 4, 4 and 48; they are
  natural numbers here.
\<close>

function readData_loop_j :: "(nat \<Rightarrow> byte) \<Rightarrow> nat \<Rightarrow> nat \<Rightarrow> byte list \<Rightarrow> nat \<Rightarrow> error + (byte list \<times> nat)" where
  "readData_loop_j buffer i j data dataCount =
     (if j \<le> 3 then
        (case array_set data dataCount (buffer (4 * i + j)) of
           Inl e \<Rightarrow> Inl e
         | Inr data' \<Rightarrow> readData_loop_j buffer i (j + 1) data' (dataCount + 1))
      else Inr (data, dataCount))"
  by pat_completeness auto
termination
  by (relation "measure (\<lambda>(buffer, i, j, data, dataCount). 4 - j)") auto

function readData_loop_i :: "(nat \<Rightarrow> byte) \<Rightarrow> nat \<Rightarrow> byte list \<Rightarrow> nat \<Rightarrow> error + (byte list \<times> nat)" where
  "readData_loop_i buffer i data dataCount =
     (if i \<le> 3 then
        (case readData_loop_j buffer i 0 data dataCount of
           Inl e \<Rightarrow> Inl e
         | Inr (data', dataCount') \<Rightarrow> readData_loop_i buffer (i + 1) data' dataCount')
      else Inr (data, dataCount))"
  by pat_completeness auto
termination
  by (relation "measure (\<lambda>(buffer, i, data, dataCount). 4 - i)") auto

text \<open>
  The page loop \<open>for (byte page = 4; page <= 15; page += 4)\<close>. The result is the
  caller's array, \<open>dataCount\<close> and the logger's output.
\<close>

function readData_loop_page :: "MFRC522 \<Rightarrow> byte \<Rightarrow> (nat \<Rightarrow> byte) \<Rightarrow> byte \<Rightarrow> byte list \<Rightarrow> nat \<Rightarrow> string
    \<Rightarrow> error + (byte list \<times> nat \<times> string)" where
  "readData_loop_page mfrc522 page buffer byteCount data dataCount log =
     (if page \<le> 15 then
        (case MIFARE_Read mfrc522 page buffer byteCount of
           (status, buffer', byteCount') \<Rightarrow>
             if status \<noteq> STATUS_OK then
               Inr (data, dataCount,
                    logger_println (logger_print log ''MIFARE_Read() failed: '')
                      (GetStatusCodeName mfrc522 status))
             else
               (case readData_loop_i buffer' 0 data dataCount of
                  Inl e \<Rightarrow> Inl e
                | Inr (data', dataCount') \<Rightarrow>
                    readData_loop_page mfrc522 (page + 4) buffer' byteCount' data' dataCount' log))
      else Inr (data, dataCount, log))"
  by pat_completeness auto
termination
proof (relation "measure (\<lambda>(mfrc522, page, buffer, byteCount, data, dataCount, log). 16 - unat page)")
  show "wf (measure (\<lambda>(mfrc522, page, buffer, byteCount, data, dataCount, log). 16 - unat page))"
    by simp
next
  fix mfrc522 :: MFRC522 and page byteCount byteCount' :: byte
    and buffer buffer' :: "nat \<Rightarrow> byte" and data data' :: "byte list"
    and dataCount dataCount' :: nat and log :: string
  assume le: "page \<le> 15"
  have p: "unat page \<le> 15"
    using le by (simp add: word_le_nat_alt)
  have "unat (page + 4) = unat page + 4"
    using p by (simp add: unat_word_ariths)
  with p show "((mfrc522, page + 4, buffer', byteCount', data', dataCount', log),
       (mfrc522, page, buffer, byteCount, data, dataCount, log))
      \<in> measure (\<lambda>(mfrc522, page, buffer, byteCount, data, dataCount, log). 16 - unat page)"
    by simp
qed

text \<open>
  \<open>readData_MIFARE_UL(byte data[])\<close>: the local \<open>buffer[18]\<close> is not initialised
  (zeroed here, the driver fills it), \<open>byteCount\<close> is \<open>sizeof(buffer)\<close>, and the
  \<open>int dataCount\<close> is returned as \<open>unsigned int\<close>.
\<close>

definition readData_MIFARE_UL :: "MFRC522 \<Rightarrow> byte list \<Rightarrow> string \<Rightarrow> error + (byte list \<times> uint32_t \<times> string)" where
  "readData_MIFARE_UL mfrc522 data log =
     (case readData_loop_page mfrc522 4 (\<lambda>k. 0) 18 data 0 log of
        Inl e \<Rightarrow> Inl e
      | Inr (data', dataCount, log') \<Rightarrow> Inr (data', of_nat dataCount, log'))"

text \<open>
  \<open>publishCard(MFRC522::Uid uid)\<close>: the result is the status record handed to
  \<open>publishStatus\<close> and the logger's output. The local arrays \<open>buffer[128]\<close> and
  \<open>data[64]\<close> are not initialised by the source and start zeroed here.
\<close>

definition publishCard :: "MFRC522 \<Rightarrow> Uid \<Rightarrow> string \<Rightarrow> error + (Json \<times> string)" where
  "publishCard mfrc522 uid log =
     (let buffer = replicate 128 (CHR 0x00);
          data = replicate 64 (0 :: byte);
          data_len = (0 :: uint32_t);
          type = PICC_GetType mfrc522 (sak uid)
      in case (if type = PICC_TYPE_MIFARE_UL
               then readData_MIFARE_UL mfrc522 data log
               else Inr (data, data_len, log)) of
           Inl e \<Rightarrow> Inl e
         | Inr (data, data_len, log) \<Rightarrow>
             (let json = json_set [] ''sak'' (JInt (uint (sak uid)));
                  json = json_set json ''type'' (JString (PICC_GetTypeName mfrc522 type))
              in case toHexString_uint buffer (uidByte uid) (ucast (uid_size uid)) of
                   Inl e \<Rightarrow> Inl e
                 | Inr buffer \<Rightarrow>
                     (let json = json_set json ''uid'' (JString (c_str buffer))
                      in case toHexString_uint buffer data data_len of
                           Inl e \<Rightarrow> Inl e
                         | Inr buffer \<Rightarrow>
                             Inr (JObject (json_set json ''data'' (JString (c_str buffer))),
                                  log))))"

section \<open>Closed forms of the codec\<close>

text \<open>
  What the encoders write, as list functions: two digits per byte for the hex encoder,
  one character per byte for the ASCII encoder. The lemmas below show that the loops
  compute them.
\<close>

definition hex_pair :: "byte \<Rightarrow> string" where
  "hex_pair d = [nibble_char ((drop_bit 4 d) AND 0x0F), nibble_char ((drop_bit 0 d) AND 0x0F)]"

definition ascii_char :: "byte \<Rightarrow> char" where
  "ascii_char d = (if d \<le> 0x1F then CHR ''.'' else char_of (unat d))"

definition ascii_of :: "byte list \<Rightarrow> string" where
  "ascii_of bs = map ascii_char bs"

definition hex_of :: "byte list \<Rightarrow> string" where
  "hex_of bs = concat (map hex_pair bs)"

section \<open>Example inputs\<close>

text \<open>Tags, reports and states used to instantiate the theorems below.\<close>

definition tag_long :: NfcTag where
  "tag_long = \<lparr> tag_uid = [0x04, 0xA2, 0x5C, 0x7B, 0x11, 0x22, 0x33],
                 tagType = ''NFC Forum Type 2'', ndefMessage = None \<rparr>"

definition tag_prefix :: NfcTag where
  "tag_prefix = \<lparr> tag_uid = [0x04, 0xA2, 0x5C, 0x7B],
                   tagType = ''Mifare Classic'', ndefMessage = None \<rparr>"

definition tag_other :: NfcTag where
  "tag_other = \<lparr> tag_uid = [0xDE, 0xAD, 0xBE, 0xEF],
                  tagType = ''Mifare Classic'', ndefMessage = None \<rparr>"

definition tag_zero :: NfcTag where
  "tag_zero = \<lparr> tag_uid = [0, 0, 0, 0], tagType = ''Mifare Classic'', ndefMessage = None \<rparr>"

definition report_long :: Json where
  "report_long = JObject [(''uid'', JString ''04A25C7B112233''), (''type'', JString ''NFC Forum Type 2'')]"

definition report_other :: Json where
  "report_other = JObject [(''uid'', JString ''DEADBEEF''), (''type'', JString ''Mifare Classic'')]"

definition holding_long :: globals where
  "holding_long = initial_globals\<lparr>lastUid := [0x04, 0xA2, 0x5C, 0x7B, 0x11, 0x22, 0x33, 0]\<rparr>"

definition report_zero :: Json where
  "report_zero = JObject [(''uid'', JString ''00000000''), (''type'', JString ''Mifare Classic'')]"

definition tag_other_extended :: NfcTag where
  "tag_other_extended = \<lparr> tag_uid = [0xDE, 0xAD, 0xBE, 0xEF, 0x11, 0x22, 0x33],
                           tagType = ''NFC Forum Type 2'', ndefMessage = None \<rparr>"

definition holding_other_stale :: globals where
  "holding_other_stale = initial_globals\<lparr>lastUid := [0xDE, 0xAD, 0xBE, 0xEF, 0x11, 0x22, 0x33, 0]\<rparr>"

definition config_70000 :: "string \<rightharpoonup> uint32_t" where
  "config_70000 = [''tagReadIntervalMs'' \<mapsto> 70000]"

definition holding_other :: globals where
  "holding_other = initial_globals\<lparr>lastUid := [0xDE, 0xAD, 0xBE, 0xEF, 0, 0, 0, 0]\<rparr>"


definition payload256 :: "byte list" where
  "payload256 = replicate 256 0x41"



text \<open>
  A driver, and two cards, for the examples: the read of page 4 succeeds and fills the
  buffer with \<open>0, 1, 2, ...\<close>; every other read times out.
\<close>

definition demo_mfrc522 :: MFRC522 where
  "demo_mfrc522 =
     \<lparr> PICC_GetType = (\<lambda>sak. if sak = 0x00 then PICC_TYPE_MIFARE_UL
                              else if sak = 0x08 then PICC_TYPE_MIFARE_1K
                              else PICC_TYPE_UNKNOWN),
       PICC_GetTypeName = (\<lambda>t. case t of
                               PICC_TYPE_MIFARE_UL \<Rightarrow> ''MIFARE Ultralight or Ultralight C''
                             | PICC_TYPE_MIFARE_1K \<Rightarrow> ''MIFARE 1KB''
                             | _ \<Rightarrow> ''Unknown type''),
       GetStatusCodeName = (\<lambda>s. case s of
                               STATUS_TIMEOUT \<Rightarrow> ''Timeout in communication.''
                             | _ \<Rightarrow> ''Error in communication.''),
       MIFARE_Read = (\<lambda>page buffer byteCount.
                        if page = 4 then (STATUS_OK, of_nat, 18)
                        else (STATUS_TIMEOUT, buffer, byteCount)) \<rparr>"

definition card_ul :: Uid where
  "card_ul = \<lparr> uid_size = 7, uidByte = [0x04, 0xA2, 0x5C, 0x7B, 0x11, 0x22, 0x33, 0, 0, 0],
                sak = 0x00 \<rparr>"

definition card_1k :: Uid where
  "card_1k = \<lparr> uid_size = 4, uidByte = [0x04, 0xA2, 0x5C, 0x7B, 0, 0, 0, 0, 0, 0],
                sak = 0x08 \<rparr>"

text \<open>
  The sixteen data bytes of a successful read, and the logger's output after a failed
  read.
\<close>

definition block16 :: "(nat \<Rightarrow> byte) \<Rightarrow> byte list" where
  "block16 buffer = map buffer [0..<16]"

definition read_failed :: "MFRC522 \<Rightarrow> string \<Rightarrow> StatusCode \<Rightarrow> string" where
  "read_failed mfrc522 log status =
     log @ ''MIFARE_Read() failed: '' @ GetStatusCodeName mfrc522 status @ [CHR 0x0D, CHR 0x0A]"

section \<open>The loops compute the closed forms\<close>

declare toHexString_loop.simps [simp del] toAsciiString_loop.simps [simp del]
  toHexString_uint_loop.simps [simp del] readData_loop_j.simps [simp del]
  readData_loop_i.simps [simp del] readData_loop_page.simps [simp del]

lemma word_succ_unat:
  fixes i len :: "'a::len word"
  assumes "i < len"
  shows "unat (i + 1) = Suc (unat i)"
proof -
  have ne: "1 + i \<noteq> 0"
  proof
    assume "1 + i = 0"
    then have "i = - 1" by (simp add: add_eq_0_iff)
    with assms show False by simp
  qed
  show ?thesis using unatSuc [OF ne] by (simp add: add.commute)
qed

lemma update2_take:
  assumes "2 * k + 2 \<le> length xs"
  shows "take (2 * k + 2) (xs[2 * k := a, 2 * k + 1 := b]) = take (2 * k) xs @ [a, b]"
  using assms by (auto simp: list_eq_iff_nth_eq nth_append nth_list_update less_Suc_eq)

lemma toHexString_loop_eq:
  assumes "i \<le> len" "unat len \<le> length data" "2 * unat len \<le> length buffer"
  shows "toHexString_loop buffer data len i =
     Inr (take (2 * unat i) buffer @ hex_of (take (unat len - unat i) (drop (unat i) data))
          @ drop (2 * unat len) buffer)"
  using assms
proof (induction buffer data len i rule: toHexString_loop.induct)
  case (1 buffer data len i)
  show ?case
  proof (cases "i < len")
    case False
    with "1.prems" have "i = len" by simp
    then show ?thesis
      using "1.prems" by (subst toHexString_loop.simps) (simp add: hex_of_def)
  next
    case True
    then have lt: "unat i < unat len" by (simp add: word_less_nat_alt)
    have suc: "unat (i + 1) = Suc (unat i)" by (rule word_succ_unat [OF True])
    have le': "i + 1 \<le> len" using True by (rule inc_le)
    let ?d = "data ! unat i"
    let ?c1 = "nibble_char ((drop_bit 4 ?d) AND 0x0F)"
    let ?c2 = "nibble_char ((drop_bit 0 ?d) AND 0x0F)"
    let ?b1 = "buffer[unat i * 2 + 0 := ?c1]"
    let ?b2 = "?b1[unat i * 2 + 1 := ?c2]"
    have g: "array_get data (unat i) = Inr ?d"
      using lt "1.prems" by (simp add: array_get_def)
    have s1: "array_set buffer (unat i * 2 + 0) ?c1 = Inr ?b1"
      using lt "1.prems" by (simp add: array_set_def)
    have s2: "array_set ?b1 (unat i * 2 + 1) ?c2 = Inr ?b2"
      using lt "1.prems" by (simp add: array_set_def)
    have IH: "toHexString_loop ?b2 data len (i + 1) =
       Inr (take (2 * unat (i + 1)) ?b2 @ hex_of (take (unat len - unat (i + 1)) (drop (unat (i + 1)) data))
          @ drop (2 * unat len) ?b2)"
      using "1.IH" [OF True g refl refl s1 s2 le'] "1.prems" by simp
    have t: "take (2 * unat (i + 1)) ?b2 = take (2 * unat i) buffer @ [?c1, ?c2]"
      using update2_take [of "unat i" buffer ?c1 ?c2] lt "1.prems" by (simp add: suc mult.commute)
    have dr: "drop (2 * unat len) ?b2 = drop (2 * unat len) buffer"
      using lt by simp
    have tk: "take (unat len - unat i) (drop (unat i) data) =
        ?d # take (unat len - unat (i + 1)) (drop (unat (i + 1)) data)"
      using lt "1.prems" by (simp add: suc take_Suc_conv_app_nth Cons_nth_drop_Suc [symmetric] Suc_diff_Suc [symmetric] del: Suc_diff_Suc)
    have step: "toHexString_loop buffer data len i = toHexString_loop ?b2 data len (i + 1)"
      using True g s1 s2 by (subst toHexString_loop.simps) (simp add: Let_def)
    show ?thesis
      unfolding step IH t dr tk by (simp add: hex_of_def hex_pair_def)
  qed
qed


lemma toHexString_eq:
  assumes "unat len \<le> length data" "2 * unat len + 1 \<le> length buffer"
  shows "toHexString buffer data len =
     Inr (hex_of (take (unat len) data) @ CHR 0x00 # drop (2 * unat len + 1) buffer)"
proof -
  have "toHexString_loop buffer data len 0 =
      Inr (hex_of (take (unat len) data) @ drop (2 * unat len) buffer)"
    using toHexString_loop_eq [of 0 len data buffer] assms by simp
  moreover have "length (hex_of (take (unat len) data)) = 2 * unat len"
    using assms by (simp add: hex_of_def hex_pair_def length_concat o_def sum_list_triv)
  ultimately show ?thesis
    using assms
    by (simp add: toHexString_def array_set_def list_update_append mult.commute
        upd_conv_take_nth_drop)
qed


lemma nibble_char_nat:
  "nibble_char nib = (if unat nib < 10 then char_of (48 + unat nib) else char_of (55 + unat nib))"
proof -
  have a: "(of_char CHR ''0'' + uint nib :: int) = of_nat (48 + unat nib)" by simp
  have b: "(of_char CHR ''A'' + uint nib - 0xA :: int) = of_nat (55 + unat nib)" by simp
  have c: "nib < 0xA \<longleftrightarrow> unat nib < 10" by (simp add: word_less_nat_alt)
  show ?thesis
    unfolding nibble_char_def a b c char_of_nat ..
qed


lemma nibble_char_in_digits:
  assumes "unat nib < 16"
  shows "nibble_char nib \<in> set ''0123456789ABCDEF''"
proof -
  have "unat nib = 0 \<or> unat nib = 1 \<or> unat nib = 2 \<or> unat nib = 3 \<or> unat nib = 4
      \<or> unat nib = 5 \<or> unat nib = 6 \<or> unat nib = 7 \<or> unat nib = 8 \<or> unat nib = 9
      \<or> unat nib = 10 \<or> unat nib = 11 \<or> unat nib = 12 \<or> unat nib = 13
      \<or> unat nib = 14 \<or> unat nib = 15"
    using assms by presburger
  then show ?thesis
    unfolding nibble_char_nat by (elim disjE) (simp_all add: char_of_def bit_0)
qed

lemma low_nibble_unat: "unat ((d :: byte) AND 0x0F) = unat d mod 16"
proof -
  have "(d AND 0x0F) = take_bit 4 d"
    by (simp add: take_bit_eq_mask mask_eq_exp_minus_1)
  then show ?thesis by (simp add: unsigned_take_bit_eq take_bit_eq_mod unat_mod)
qed

lemma high_nibble_unat: "unat ((drop_bit 4 (d :: byte)) AND 0x0F) = unat d div 16"
proof -
  have e: "unat (drop_bit 4 d) = unat d div 16"
    by (simp add: unat_drop_bit_eq drop_bit_eq_div unat_div)
  moreover have "unat d < 256" using unsigned_less [of d, where 'a=nat] by simp
  ultimately have "unat (drop_bit 4 d) < 16" by simp
  moreover have "unat ((drop_bit 4 d) AND 0x0F) = unat (drop_bit 4 d) mod 16"
    by (rule low_nibble_unat)
  ultimately show ?thesis using e by simp
qed


lemma hex_of_chars: "c \<in> set (hex_of bs) \<Longrightarrow> c \<in> set ''0123456789ABCDEF''"
proof -
  assume "c \<in> set (hex_of bs)"
  then obtain d where "c = nibble_char ((drop_bit 4 d) AND 0x0F) \<or> c = nibble_char ((drop_bit 0 d) AND 0x0F)"
    by (auto simp: hex_of_def hex_pair_def)
  moreover have "unat ((drop_bit 4 d) AND 0x0F) < 16"
    using unsigned_less [of d, where 'a=nat] by (simp add: high_nibble_unat)
  moreover have "unat ((drop_bit 0 d) AND 0x0F) < 16"
    by (simp add: low_nibble_unat)
  ultimately show ?thesis
    using nibble_char_in_digits by blast
qed

lemma length_hex_of: "length (hex_of bs) = 2 * length bs"
  by (induction bs) (simp_all add: hex_of_def hex_pair_def)


lemma c_str_hex_of: "c_str (hex_of bs @ CHR 0x00 # rest) = hex_of bs"
proof -
  have "\<forall>c \<in> set (hex_of bs). c \<noteq> CHR 0x00"
    using hex_of_chars by fastforce
  then show ?thesis
    by (simp add: c_str_def takeWhile_append2)
qed


lemma toAsciiString_loop_eq:
  assumes "i \<le> len" "unat len \<le> length data" "unat len \<le> length buffer"
  shows "toAsciiString_loop buffer data len i =
     Inr (take (unat i) buffer @ ascii_of (take (unat len - unat i) (drop (unat i) data))
          @ drop (unat len) buffer)"
  using assms
proof (induction buffer data len i rule: toAsciiString_loop.induct)
  case (1 buffer data len i)
  show ?case
  proof (cases "i < len")
    case False
    with "1.prems" have "i = len" by simp
    then show ?thesis
      using "1.prems" by (subst toAsciiString_loop.simps) (simp add: ascii_of_def)
  next
    case True
    then have lt: "unat i < unat len" by (simp add: word_less_nat_alt)
    have suc: "unat (i + 1) = Suc (unat i)" by (rule word_succ_unat [OF True])
    have le': "i + 1 \<le> len" using True by (rule inc_le)
    let ?d = "data ! unat i"
    let ?b1 = "buffer[unat i := ascii_char ?d]"
    have g: "array_get data (unat i) = Inr ?d"
      using lt "1.prems" by (simp add: array_get_def)
    have s1: "(if ?d \<le> 0x1F then array_set buffer (unat i) CHR ''.''
               else array_set buffer (unat i) (char_of (unat ?d))) = Inr ?b1"
      using lt "1.prems" by (simp add: array_set_def ascii_char_def)
    have IH: "toAsciiString_loop ?b1 data len (i + 1) =
       Inr (take (unat (i + 1)) ?b1 @ ascii_of (take (unat len - unat (i + 1)) (drop (unat (i + 1)) data))
          @ drop (unat len) ?b1)"
      using "1.IH" [OF True g s1 le'] "1.prems" by simp
    have t: "take (unat (i + 1)) ?b1 = take (unat i) buffer @ [ascii_char ?d]"
      using lt "1.prems" by (simp add: suc take_Suc_conv_app_nth)
    have dr: "drop (unat len) ?b1 = drop (unat len) buffer"
      using lt by simp
    have tk: "take (unat len - unat i) (drop (unat i) data) =
        ?d # take (unat len - unat (i + 1)) (drop (unat (i + 1)) data)"
      using lt "1.prems" by (simp add: suc Cons_nth_drop_Suc [symmetric] Suc_diff_Suc [symmetric] del: Suc_diff_Suc)
    have step: "toAsciiString_loop buffer data len i = toAsciiString_loop ?b1 data len (i + 1)"
      using True g s1 by (subst toAsciiString_loop.simps) simp
    show ?thesis
      unfolding step IH t dr tk by (simp add: ascii_of_def)
  qed
qed

lemma toAsciiString_eq:
  assumes "unat len \<le> length data" "unat len + 1 \<le> length buffer"
  shows "toAsciiString buffer data len =
     Inr (ascii_of (take (unat len) data) @ CHR 0x00 # drop (unat len + 1) buffer)"
proof -
  have "toAsciiString_loop buffer data len 0 =
      Inr (ascii_of (take (unat len) data) @ drop (unat len) buffer)"
    using toAsciiString_loop_eq [of 0 len data buffer] assms by simp
  moreover have "length (ascii_of (take (unat len) data)) = unat len"
    using assms by (simp add: ascii_of_def)
  ultimately show ?thesis
    using assms
    by (simp add: toAsciiString_def array_set_def list_update_append upd_conv_take_nth_drop)
qed

lemma ascii_char_not_NUL: "ascii_char d \<noteq> CHR 0x00"
proof (cases "d \<le> 0x1F")
  case True
  then show ?thesis by (simp add: ascii_char_def)
next
  case False
  then have "d \<noteq> 0" by auto
  then have "unat d \<noteq> 0" by (simp add: unat_eq_0)
  moreover have "unat d < 256" using unsigned_less [of d, where 'a=nat] by simp
  ultimately have nz: "(of_char (char_of (unat d)) :: nat) \<noteq> 0" by simp
  have "char_of (unat d) \<noteq> CHR 0x00"
  proof
    assume "char_of (unat d) = CHR 0x00"
    then have "(of_char (char_of (unat d)) :: nat) = of_char (CHR 0x00)" by (rule arg_cong)
    with nz show False by simp
  qed
  with False show ?thesis by (simp add: ascii_char_def)
qed

lemma c_str_ascii_of: "c_str (ascii_of bs @ CHR 0x00 # rest) = ascii_of bs"
proof -
  have "\<forall>c \<in> set (ascii_of bs). c \<noteq> CHR 0x00"
    using ascii_char_not_NUL by (auto simp: ascii_of_def)
  then show ?thesis
    by (simp add: c_str_def)
qed


section \<open>The PN532 poll cycle in closed form\<close>

text \<open>
  \<open>publishTag\<close> returns a record for every tag whose UID fits the eight-byte array,
  whatever its message records are. A poll cycle then either leaves the globals alone
  or stores the UID and publishes.
\<close>

lemma unat_of_nat_byte_le: "unat (of_nat n :: uint8_t) \<le> n" "unat (of_nat n :: uint8_t) \<le> 255"
proof -
  have e: "unat (of_nat n :: uint8_t) = n mod 256" by (simp add: unat_of_nat)
  show "unat (of_nat n :: uint8_t) \<le> n" unfolding e by simp
  have "n mod 256 < 256" by simp
  then show "unat (of_nat n :: uint8_t) \<le> 255" unfolding e by linarith
qed

lemma publishTag_record_total:
  assumes "length buffer = 1024"
  shows "\<exists>buffer' recordJson. publishTag_record buffer r = Inr (buffer', recordJson)
           \<and> length buffer' = 1024"
proof -
  let ?len = "of_nat (length (payload r)) :: uint8_t"
  have a: "unat ?len \<le> length (payload r)" and b: "unat ?len \<le> 255"
    by (rule unat_of_nat_byte_le)+
  let ?b1 = "hex_of (take (unat ?len) (payload r)) @ CHR 0x00 # drop (2 * unat ?len + 1) buffer"
  let ?b2 = "ascii_of (take (unat ?len) (payload r)) @ CHR 0x00 # drop (unat ?len + 1) ?b1"
  have h: "toHexString buffer (payload r) ?len = Inr ?b1"
    using a b assms by (intro toHexString_eq) simp_all
  have l1: "length ?b1 = 1024"
    using a b assms by (simp add: length_hex_of)
  have as: "toAsciiString ?b1 (payload r) ?len = Inr ?b2"
    using a b l1 by (intro toAsciiString_eq) simp_all
  have l2: "length ?b2 = 1024"
    using a b l1 by (simp add: ascii_of_def del: length_append length_drop) (simp add: l1)
  show ?thesis
    using h as l2 by (simp add: publishTag_record_def Let_def)
qed

lemma publishTag_records_total:
  assumes "length buffer = 1024"
  shows "\<exists>recordsJson. publishTag_records buffer rs = Inr recordsJson"
  using assms
proof (induction rs arbitrary: buffer)
  case Nil
  show ?case by simp
next
  case (Cons r rs)
  from publishTag_record_total [OF Cons.prems, of r]
  obtain buffer' recordJson where
    r: "publishTag_record buffer r = Inr (buffer', recordJson)" and l: "length buffer' = 1024"
    by blast
  from Cons.IH [OF l] obtain recordsJson where "publishTag_records buffer' rs = Inr recordsJson"
    by blast
  with r show ?case by simp
qed

lemma getUid_eq:
  assumes "length (tag_uid tag) \<le> MAX_UID_BYTES"
  shows "getUid tag (replicate MAX_UID_BYTES 0) (getUidLength tag) =
     Inr (tag_uid tag @ replicate (MAX_UID_BYTES - length (tag_uid tag)) 0)"
  using assms by (simp add: getUid_def getUidLength_def memcpy_def)

lemma publishTag_total:
  assumes "length (tag_uid tag) \<le> MAX_UID_BYTES"
  shows "\<exists>ms. publishTag tag = Inr (JObject ms)
           \<and> json_get ms ''uid'' = Some (JString (hex_of (tag_uid tag)))
           \<and> json_get ms ''type'' = Some (JString (tagType tag))"
proof -
  let ?L = "length (tag_uid tag)"
  let ?uid = "tag_uid tag @ replicate (MAX_UID_BYTES - ?L) 0"
  let ?len = "of_nat (getUidLength tag) :: uint8_t"
  have L: "?L \<le> 8" using assms by (simp add: MAX_UID_BYTES_def)
  have u: "unat ?len = ?L"
    using L by (simp add: getUidLength_def unat_of_nat)
  let ?b = "hex_of (tag_uid tag) @ CHR 0x00 # drop (2 * ?L + 1) (replicate 1024 (CHR 0x00))"
  have "toHexString (replicate 1024 (CHR 0x00)) ?uid ?len =
      Inr (hex_of (take (unat ?len) ?uid) @ CHR 0x00 # drop (2 * unat ?len + 1) (replicate 1024 (CHR 0x00)))"
    using L by (intro toHexString_eq) (simp_all add: u MAX_UID_BYTES_def)
  then have h: "toHexString (replicate 1024 (CHR 0x00)) ?uid ?len = Inr ?b"
    by (simp add: u)
  have lb: "length ?b = 1024"
    using L by (simp add: length_hex_of)
  have c: "c_str ?b = hex_of (tag_uid tag)" by (rule c_str_hex_of)
  show ?thesis
  proof (cases "ndefMessage tag")
    case None
    then show ?thesis
      using h c by (simp add: publishTag_def getUid_eq [OF assms] Let_def json_get_def)
  next
    case (Some records)
    from publishTag_records_total [OF lb, of records]
    obtain recordsJson where "publishTag_records ?b records = Inr recordsJson" by blast
    with Some show ?thesis
      using h c by (simp add: publishTag_def getUid_eq [OF assms] Let_def json_get_def)
  qed
qed

lemma memcmp_bytes_0_iff:
  assumes "length a = length b"
  shows "memcmp_bytes a b = 0 \<longleftrightarrow> a = b"
  using assms by (induction a b rule: list_induct2) auto

lemma processPN532_None:
  assumes "length (lastUid g) = MAX_UID_BYTES"
  shows "processPN532 None g = Inr (g\<lparr>lastUid := replicate MAX_UID_BYTES 0\<rparr>, [])"
  using assms by (simp add: processPN532_def memset_def)

lemma processPN532_Some:
  assumes "length (lastUid g) = MAX_UID_BYTES" "length (tag_uid tag) \<le> MAX_UID_BYTES"
    and p: "publishTag tag = Inr json"
  shows "processPN532 (Some tag) g =
     (if take (length (tag_uid tag)) (lastUid g) = tag_uid tag then Inr (g, [])
      else Inr (g\<lparr>lastUid := tag_uid tag @ drop (length (tag_uid tag)) (lastUid g)\<rparr>,
                [json]))"
proof -
  let ?L = "length (tag_uid tag)"
  let ?uid = "tag_uid tag @ replicate (MAX_UID_BYTES - ?L) 0"
  have cmp: "memcmp ?uid (lastUid g) (getUidLength tag) =
      Inr (memcmp_bytes (tag_uid tag) (take ?L (lastUid g)))"
    using assms by (simp add: memcmp_def getUidLength_def)
  have z: "memcmp_bytes (tag_uid tag) (take ?L (lastUid g)) = 0
      \<longleftrightarrow> take ?L (lastUid g) = tag_uid tag"
    using assms memcmp_bytes_0_iff [of "tag_uid tag" "take ?L (lastUid g)"] by auto
  have cpy: "memcpy (lastUid g) ?uid (getUidLength tag) = Inr (tag_uid tag @ drop ?L (lastUid g))"
    using assms by (simp add: memcpy_def getUidLength_def)
  show ?thesis
    using z p cmp cpy by (simp add: processPN532_def getUid_eq [OF assms(2)])
qed


lemma processPN532_too_long:
  assumes "MAX_UID_BYTES < length (tag_uid tag)"
  shows "processPN532 (Some tag) g = Inl OutOfBounds"
  using assms by (simp add: processPN532_def getUid_def getUidLength_def memcpy_def)

lemma processPN532_accept:
  assumes "length (lastUid g) = MAX_UID_BYTES"
    and r: "processPN532 (Some tag) g = Inr (g', [json])"
  shows "length (tag_uid tag) \<le> MAX_UID_BYTES"
    and "take (length (tag_uid tag)) (lastUid g) \<noteq> tag_uid tag"
    and "g' = g\<lparr>lastUid := tag_uid tag @ drop (length (tag_uid tag)) (lastUid g)\<rparr>"
    and "publishTag tag = Inr json"
proof -
  show L: "length (tag_uid tag) \<le> MAX_UID_BYTES"
  proof (rule ccontr)
    assume "\<not> length (tag_uid tag) \<le> MAX_UID_BYTES"
    then have "processPN532 (Some tag) g = Inl OutOfBounds"
      by (intro processPN532_too_long) simp
    with r show False by simp
  qed
  from publishTag_total [OF L] obtain ms where p: "publishTag tag = Inr (JObject ms)" by blast
  note e = processPN532_Some [OF assms(1) L p]
  show "take (length (tag_uid tag)) (lastUid g) \<noteq> tag_uid tag"
    using e r by auto
  then show "g' = g\<lparr>lastUid := tag_uid tag @ drop (length (tag_uid tag)) (lastUid g)\<rparr>"
    and "publishTag tag = Inr json"
    using e r p by auto
qed

section \<open>Frame of an accepted read\<close>

text \<open>
  C10. When a poll cycle accepts a tag (a status record is published), the reported UID
  length \<open>L\<close> is at most \<open>MAX_UID_BYTES\<close>, the first \<open>L\<close> bytes of \<open>lastUid\<close> become
  the tag's UID, and the bytes at indices \<open>L\<close> to 7 keep their previous values. The
  other globals are unchanged.
\<close>

theorem accepted_tag_overwrites_first_L_bytes_only:
  assumes "length (lastUid g) = MAX_UID_BYTES"
    and "processPN532 (Some tag) g = Inr (g', [json])"
  shows "getUidLength tag \<le> MAX_UID_BYTES
       \<and> length (lastUid g') = MAX_UID_BYTES
       \<and> take (getUidLength tag) (lastUid g') = tag_uid tag
       \<and> (\<forall>i. getUidLength tag \<le> i \<and> i < MAX_UID_BYTES \<longrightarrow> lastUid g' ! i = lastUid g ! i)
       \<and> tagReadIntervalMs g' = tagReadIntervalMs g \<and> lastTagReadMs g' = lastTagReadMs g"
proof -
  note a = processPN532_accept [OF assms]
  have "\<forall>i. length (tag_uid tag) \<le> i \<and> i < MAX_UID_BYTES \<longrightarrow>
      (tag_uid tag @ drop (length (tag_uid tag)) (lastUid g)) ! i = lastUid g ! i"
    using assms(1) by (simp add: nth_append)
  then show ?thesis
    using a(1) assms(1) by (simp add: a(3) getUidLength_def)
qed

theorem accepted_tag_overwrites_first_L_bytes_only_witness:
  "length (lastUid holding_long) = MAX_UID_BYTES
   \<and> processPN532 (Some tag_other) holding_long =
       Inr (holding_long\<lparr>lastUid := [0xDE, 0xAD, 0xBE, 0xEF, 0x11, 0x22, 0x33, 0]\<rparr>, [report_other])
   \<and> getUidLength tag_other = 4
   \<and> take 4 (lastUid (holding_long\<lparr>lastUid := [0xDE, 0xAD, 0xBE, 0xEF, 0x11, 0x22, 0x33, 0]\<rparr>)) = tag_uid tag_other
   \<and> drop 4 (lastUid (holding_long\<lparr>lastUid := [0xDE, 0xAD, 0xBE, 0xEF, 0x11, 0x22, 0x33, 0]\<rparr>))
       = drop 4 (lastUid holding_long)"
proof -
  have h1: "length (lastUid holding_long) = MAX_UID_BYTES"
    by code_simp
  have h2: "processPN532 (Some tag_other) holding_long =
       Inr (holding_long\<lparr>lastUid := [0xDE, 0xAD, 0xBE, 0xEF, 0x11, 0x22, 0x33, 0]\<rparr>, [report_other])"
    by code_simp
  have L: "getUidLength tag_other = 4"
    by (simp add: getUidLength_def tag_other_def)
  from accepted_tag_overwrites_first_L_bytes_only [OF h1 h2] h1 h2 L
  show ?thesis by (simp add: MAX_UID_BYTES_def holding_long_def)
qed


section \<open>Sequences of poll cycles\<close>

lemma poll_cycles_held:
  assumes "length (lastUid g) = MAX_UID_BYTES" "length u \<le> MAX_UID_BYTES"
    and "\<forall>t \<in> set tags. tag_uid t = u" "take (length u) (lastUid g) = u"
  shows "poll_cycles (map Some tags) g = Inr (g, [])"
  using assms(3)
proof (induction tags)
  case Nil
  show ?case by simp
next
  case (Cons t ts)
  then have u: "tag_uid t = u" by simp
  with assms(2) have L: "length (tag_uid t) \<le> MAX_UID_BYTES" by simp
  from publishTag_total [OF L] obtain ms where p: "publishTag t = Inr (JObject ms)" by blast
  have "processPN532 (Some t) g = Inr (g, [])"
    using processPN532_Some [OF assms(1) L p] assms(4) u by simp
  with Cons show ?case by simp
qed

lemma poll_cycles_same_uid:
  assumes len: "length (lastUid g) = MAX_UID_BYTES" and L: "length (tag_uid tag) \<le> MAX_UID_BYTES"
    and same: "\<forall>t \<in> set tags. tag_uid t = tag_uid tag"
    and p: "publishTag tag = Inr json"
  shows "poll_cycles (map Some (tag # tags)) g =
           (if take (length (tag_uid tag)) (lastUid g) = tag_uid tag then Inr (g, [])
            else Inr (g\<lparr>lastUid := tag_uid tag @ drop (length (tag_uid tag)) (lastUid g)\<rparr>, [json]))"
proof (cases "take (length (tag_uid tag)) (lastUid g) = tag_uid tag")
  case True
  have "\<forall>t \<in> set (tag # tags). tag_uid t = tag_uid tag" using same by simp
  from poll_cycles_held [OF len L this True] True show ?thesis by simp
next
  case False
  let ?g' = "g\<lparr>lastUid := tag_uid tag @ drop (length (tag_uid tag)) (lastUid g)\<rparr>"
  have first: "processPN532 (Some tag) g = Inr (?g', [json])"
    using processPN532_Some [OF len L p] False by simp
  have len': "length (lastUid ?g') = MAX_UID_BYTES" using len L by simp
  have held: "take (length (tag_uid tag)) (lastUid ?g') = tag_uid tag" by simp
  from poll_cycles_held [OF len' L same held] first False
  show ?thesis by simp
qed

lemma take_zeros_eq_iff:
  assumes "length u \<le> n"
  shows "take (length u) (replicate n (0 :: byte)) = u \<longleftrightarrow> (\<forall>b \<in> set u. b = 0)"
proof -
  have "take (length u) (replicate n (0 :: byte)) = replicate (length u) 0"
    using assms by (simp add: min_def)
  then show ?thesis
    by (metis replicate_eqI in_set_replicate)
qed

section \<open>Repeated reads of one identifier\<close>

text \<open>
  C2, as the code has it. When the same identifier, of length \<open>L\<close> at most
  \<open>MAX_UID_BYTES\<close>, is read on consecutive poll cycles, at most one status record is
  published: the first read publishes exactly when the identifier differs from the first
  \<open>L\<close> bytes of \<open>lastUid\<close>, and every later read of it publishes nothing. From the cleared
  buffer the first read publishes exactly when the identifier has a nonzero byte.
\<close>

theorem same_identifier_publishes_at_most_once:
  assumes "length (lastUid g) = MAX_UID_BYTES" and "length (tag_uid tag) \<le> MAX_UID_BYTES"
    and "\<forall>t \<in> set tags. tag_uid t = tag_uid tag"
  shows "\<exists>json. publishTag tag = Inr json
           \<and> poll_cycles (map Some (tag # tags)) g =
               (if take (length (tag_uid tag)) (lastUid g) = tag_uid tag then Inr (g, [])
                else Inr (g\<lparr>lastUid := tag_uid tag @ drop (length (tag_uid tag)) (lastUid g)\<rparr>,
                          [json]))
           \<and> (lastUid g = replicate MAX_UID_BYTES 0 \<longrightarrow>
                (take (length (tag_uid tag)) (lastUid g) = tag_uid tag \<longleftrightarrow> (\<forall>b \<in> set (tag_uid tag). b = 0)))"
proof -
  from publishTag_total [OF assms(2)] obtain ms where p: "publishTag tag = Inr (JObject ms)" by blast
  have "lastUid g = replicate MAX_UID_BYTES 0 \<longrightarrow>
      (take (length (tag_uid tag)) (lastUid g) = tag_uid tag \<longleftrightarrow> (\<forall>b \<in> set (tag_uid tag). b = 0))"
    using take_zeros_eq_iff [OF assms(2)] by simp
  with poll_cycles_same_uid [OF assms p] p show ?thesis by blast
qed

theorem same_identifier_publishes_at_most_once_witness:
  "poll_cycles (map Some (tag_other # [tag_other, tag_other, tag_other])) initial_globals =
     Inr (holding_other, [report_other])"
proof -
  have h1: "length (lastUid initial_globals) = MAX_UID_BYTES" by code_simp
  have h2: "length (tag_uid tag_other) \<le> MAX_UID_BYTES" by code_simp
  have h3: "\<forall>t \<in> set [tag_other, tag_other, tag_other]. tag_uid t = tag_uid tag_other" by simp
  have p: "publishTag tag_other = Inr report_other" by code_simp
  have ne: "take (length (tag_uid tag_other)) (lastUid initial_globals) \<noteq> tag_uid tag_other"
    by code_simp
  have g: "initial_globals\<lparr>lastUid := tag_uid tag_other
        @ drop (length (tag_uid tag_other)) (lastUid initial_globals)\<rparr> = holding_other"
    by code_simp
  from same_identifier_publishes_at_most_once [OF h1 h2 h3] p ne g
  show ?thesis by auto
qed

text \<open>
  A tag whose four UID bytes are zero, read on three consecutive cycles after start-up,
  is never reported: its identifier equals the cleared buffer.
\<close>

theorem zero_identifier_never_published_counterexample:
  "poll_cycles [Some tag_zero, Some tag_zero, Some tag_zero] initial_globals =
     Inr (initial_globals, [])"
  by code_simp


section \<open>Which reads count as a new tag\<close>

text \<open>
  C1, as the code has it. A tag read with reported UID length \<open>L\<close> at most
  \<open>MAX_UID_BYTES\<close> is accepted (published, and stored) exactly when its \<open>L\<close> UID bytes
  differ from the first \<open>L\<close> bytes of \<open>lastUid\<close>; otherwise nothing is published and
  nothing changes. No length is stored or compared. In particular a UID that differs in
  some byte from a stored UID of the same length is accepted.
\<close>

theorem uid_compared_over_reported_length_only:
  assumes "length (lastUid g) = MAX_UID_BYTES" and "length (tag_uid tag) \<le> MAX_UID_BYTES"
  shows "\<exists>json. publishTag tag = Inr json
       \<and> (take (length (tag_uid tag)) (lastUid g) \<noteq> tag_uid tag \<longrightarrow>
            processPN532 (Some tag) g =
              Inr (g\<lparr>lastUid := tag_uid tag @ drop (length (tag_uid tag)) (lastUid g)\<rparr>, [json]))
       \<and> (take (length (tag_uid tag)) (lastUid g) = tag_uid tag \<longrightarrow>
            processPN532 (Some tag) g = Inr (g, []))
       \<and> (\<forall>prev. take (length (tag_uid prev)) (lastUid g) = tag_uid prev
              \<and> length (tag_uid prev) = length (tag_uid tag) \<and> tag_uid prev \<noteq> tag_uid tag \<longrightarrow>
            processPN532 (Some tag) g =
              Inr (g\<lparr>lastUid := tag_uid tag @ drop (length (tag_uid tag)) (lastUid g)\<rparr>, [json]))"
proof -
  from publishTag_total [OF assms(2)] obtain ms where p: "publishTag tag = Inr (JObject ms)" by blast
  note e = processPN532_Some [OF assms p]
  have "\<forall>prev. take (length (tag_uid prev)) (lastUid g) = tag_uid prev
              \<and> length (tag_uid prev) = length (tag_uid tag) \<and> tag_uid prev \<noteq> tag_uid tag \<longrightarrow>
            processPN532 (Some tag) g =
              Inr (g\<lparr>lastUid := tag_uid tag @ drop (length (tag_uid tag)) (lastUid g)\<rparr>, [JObject ms])"
    using e by auto
  with e p show ?thesis by auto
qed

theorem uid_compared_over_reported_length_only_witness:
  "processPN532 (Some tag_other) holding_long = Inr (holding_other_stale, [report_other])
   \<and> processPN532 (Some tag_other) holding_other_stale = Inr (holding_other_stale, [])"
proof -
  have h1: "length (lastUid holding_long) = MAX_UID_BYTES" by code_simp
  have h1': "length (lastUid holding_other_stale) = MAX_UID_BYTES" by code_simp
  have h2: "length (tag_uid tag_other) \<le> MAX_UID_BYTES" by code_simp
  have p: "publishTag tag_other = Inr report_other" by code_simp
  have ne: "take (length (tag_uid tag_other)) (lastUid holding_long) \<noteq> tag_uid tag_other"
    by code_simp
  have eq: "take (length (tag_uid tag_other)) (lastUid holding_other_stale) = tag_uid tag_other"
    by code_simp
  have g: "holding_long\<lparr>lastUid := tag_uid tag_other
        @ drop (length (tag_uid tag_other)) (lastUid holding_long)\<rparr> = holding_other_stale"
    by code_simp
  from uid_compared_over_reported_length_only [OF h1 h2]
    uid_compared_over_reported_length_only [OF h1' h2] p ne eq g
  show ?thesis by auto
qed

text \<open>
  A four-byte UID that is a prefix of the seven-byte UID just stored is not reported; a
  seven-byte UID that extends the four-byte UID just stored by the bytes an earlier tag
  left in the buffer is not reported either.
\<close>

theorem prefix_and_extension_uid_suppressed_counterexample:
  "processPN532 (Some tag_long) initial_globals = Inr (holding_long, [report_long])
   \<and> processPN532 (Some tag_prefix) holding_long = Inr (holding_long, [])
   \<and> tag_uid tag_prefix = take 4 (tag_uid tag_long)
   \<and> processPN532 (Some tag_other) holding_long = Inr (holding_other_stale, [report_other])
   \<and> processPN532 (Some tag_other_extended) holding_other_stale = Inr (holding_other_stale, [])
   \<and> take 4 (tag_uid tag_other_extended) = tag_uid tag_other"
  by code_simp

section \<open>A cycle without a tag\<close>

text \<open>
  C5, as the code has it. A poll cycle in which no tag is detected sets all
  \<open>MAX_UID_BYTES\<close> bytes of \<open>lastUid\<close> to zero, whatever they were, and publishes
  nothing. A tag presented after such a cycle, and held for any number of further cycles,
  is reported exactly once, provided its identifier (of length at most
  \<open>MAX_UID_BYTES\<close>) has a nonzero byte.
\<close>

theorem no_tag_cycle_clears_buffer_and_rearms:
  assumes "length (lastUid g) = MAX_UID_BYTES"
  shows "processPN532 None g = Inr (g\<lparr>lastUid := replicate MAX_UID_BYTES 0\<rparr>, [])
       \<and> (length (tag_uid tag) \<le> MAX_UID_BYTES \<and> (\<exists>b \<in> set (tag_uid tag). b \<noteq> 0)
            \<and> (\<forall>t \<in> set tags. tag_uid t = tag_uid tag) \<longrightarrow>
          (\<exists>json. publishTag tag = Inr json
             \<and> poll_cycles (None # map Some (tag # tags)) g =
                 Inr (g\<lparr>lastUid := tag_uid tag
                        @ replicate (MAX_UID_BYTES - length (tag_uid tag)) 0\<rparr>, [json])))"
proof (intro conjI impI)
  let ?g0 = "g\<lparr>lastUid := replicate MAX_UID_BYTES 0\<rparr>"
  show none: "processPN532 None g = Inr (?g0, [])"
    by (rule processPN532_None [OF assms])
  assume h: "length (tag_uid tag) \<le> MAX_UID_BYTES \<and> (\<exists>b \<in> set (tag_uid tag). b \<noteq> 0)
            \<and> (\<forall>t \<in> set tags. tag_uid t = tag_uid tag)"
  then have L: "length (tag_uid tag) \<le> MAX_UID_BYTES"
    and nz: "\<exists>b \<in> set (tag_uid tag). b \<noteq> 0"
    and same: "\<forall>t \<in> set tags. tag_uid t = tag_uid tag"
    by simp_all
  have len0: "length (lastUid ?g0) = MAX_UID_BYTES" by simp
  from publishTag_total [OF L] obtain ms where p: "publishTag tag = Inr (JObject ms)" by blast
  have "take (length (tag_uid tag)) (replicate MAX_UID_BYTES (0 :: byte)) \<noteq> tag_uid tag"
    using take_zeros_eq_iff [OF L] nz by blast
  then have ne: "take (length (tag_uid tag)) (lastUid ?g0) \<noteq> tag_uid tag" by simp
  have dr: "drop (length (tag_uid tag)) (lastUid ?g0)
      = replicate (MAX_UID_BYTES - length (tag_uid tag)) 0"
    by simp
  have "poll_cycles (map Some (tag # tags)) ?g0 =
      Inr (?g0\<lparr>lastUid := tag_uid tag @ drop (length (tag_uid tag)) (lastUid ?g0)\<rparr>, [JObject ms])"
    using poll_cycles_same_uid [OF len0 L same p] ne by (simp only: if_False)
  then have "poll_cycles (map Some (tag # tags)) ?g0 =
      Inr (g\<lparr>lastUid := tag_uid tag @ replicate (MAX_UID_BYTES - length (tag_uid tag)) 0\<rparr>, [JObject ms])"
    unfolding dr by simp
  then have "poll_cycles (None # map Some (tag # tags)) g =
      Inr (g\<lparr>lastUid := tag_uid tag @ replicate (MAX_UID_BYTES - length (tag_uid tag)) 0\<rparr>, [JObject ms])"
    using none by (simp del: list.map)
  with p show "\<exists>json. publishTag tag = Inr json
             \<and> poll_cycles (None # map Some (tag # tags)) g =
                 Inr (g\<lparr>lastUid := tag_uid tag
                        @ replicate (MAX_UID_BYTES - length (tag_uid tag)) 0\<rparr>, [json])"
    by blast
qed

theorem no_tag_cycle_clears_buffer_and_rearms_witness:
  "processPN532 None holding_long = Inr (initial_globals, [])
   \<and> poll_cycles (None # map Some (tag_long # [tag_long, tag_long])) holding_long =
       Inr (holding_long, [report_long])"
proof -
  have h1: "length (lastUid holding_long) = MAX_UID_BYTES" by code_simp
  have h2: "length (tag_uid tag_long) \<le> MAX_UID_BYTES \<and> (\<exists>b \<in> set (tag_uid tag_long). b \<noteq> 0)
            \<and> (\<forall>t \<in> set [tag_long, tag_long]. tag_uid t = tag_uid tag_long)"
    by (simp add: tag_long_def MAX_UID_BYTES_def)
  have p: "publishTag tag_long = Inr report_long" by code_simp
  have g0: "holding_long\<lparr>lastUid := replicate MAX_UID_BYTES 0\<rparr> = initial_globals" by code_simp
  have g1: "holding_long\<lparr>lastUid := tag_uid tag_long
        @ replicate (MAX_UID_BYTES - length (tag_uid tag_long)) 0\<rparr> = holding_long"
    by code_simp
  note t = no_tag_cycle_clears_buffer_and_rearms [OF h1, of tag_long "[tag_long, tag_long]"]
  have c1: "processPN532 None holding_long = Inr (initial_globals, [])"
    using t [THEN conjunct1] unfolding g0 .
  from t [THEN conjunct2, THEN mp, OF h2] obtain json where
    j: "publishTag tag_long = Inr json"
    and r: "poll_cycles (None # map Some (tag_long # [tag_long, tag_long])) holding_long =
       Inr (holding_long\<lparr>lastUid := tag_uid tag_long
        @ replicate (MAX_UID_BYTES - length (tag_uid tag_long)) 0\<rparr>, [json])"
    by blast
  from j p have "json = report_long" by simp
  with r have c2: "poll_cycles (None # map Some (tag_long # [tag_long, tag_long])) holding_long =
       Inr (holding_long, [report_long])"
    unfolding g1 by simp
  from c1 c2 show ?thesis by (intro conjI)
qed

text \<open>
  A tag whose UID bytes are all zero is reported when it follows another tag, but after
  one cycle without a tag the same tag is not reported again.
\<close>

theorem zero_identifier_not_reported_after_removal_counterexample:
  "processPN532 (Some tag_zero) holding_other = Inr (initial_globals, [report_zero])
   \<and> poll_cycles [None, Some tag_zero] initial_globals = Inr (initial_globals, [])"
  by code_simp

section \<open>Poll interval configuration\<close>

text \<open>A poll cycle neither reads nor changes the interval.\<close>

lemma processPN532_interval:
  "processPN532 reader (g\<lparr>tagReadIntervalMs := v\<rparr>) =
     (case processPN532 reader g of
        Inl e \<Rightarrow> Inl e
      | Inr (g', published) \<Rightarrow> Inr (g'\<lparr>tagReadIntervalMs := v\<rparr>, published))"
  by (simp add: processPN532_def split: option.splits sum.splits)

text \<open>
  C6, as the code has it. A configuration document that carries \<open>tagReadIntervalMs\<close>
  sets the interval to the carried value, whatever it is; no range is checked. A
  document without the key changes nothing. The next pass of \<open>loop\<close>, whatever the
  reader answers, runs the poll cycle exactly when the elapsed time exceeds the new
  value, and then resets the timer: without a tag the buffer is cleared, with a tag the
  tag is published or suppressed as in any other cycle. Otherwise the pass does nothing.
\<close>

theorem config_interval_applied_without_range_check:
  "(json ''tagReadIntervalMs'' = Some v \<longrightarrow>
      jsonConfig json g = g\<lparr>tagReadIntervalMs := v\<rparr>
      \<and> loop now now' reader (jsonConfig json g) =
          (if now - lastTagReadMs g > v then
             (case processPN532 reader g of
                Inl e \<Rightarrow> Inl e
              | Inr (g', published) \<Rightarrow>
                  Inr (g'\<lparr>tagReadIntervalMs := v, lastTagReadMs := now'\<rparr>, published))
           else Inr (g\<lparr>tagReadIntervalMs := v\<rparr>, []))
      \<and> (\<not> now - lastTagReadMs g > v \<longrightarrow>
            loop now now' reader (jsonConfig json g) = Inr (g\<lparr>tagReadIntervalMs := v\<rparr>, []))
      \<and> (now - lastTagReadMs g > v \<and> length (lastUid g) = MAX_UID_BYTES \<longrightarrow>
            loop now now' None (jsonConfig json g) =
              Inr (g\<lparr>tagReadIntervalMs := v, lastTagReadMs := now',
                     lastUid := replicate MAX_UID_BYTES 0\<rparr>, [])
            \<and> (\<forall>tag. length (tag_uid tag) \<le> MAX_UID_BYTES \<longrightarrow>
                 (\<exists>report. publishTag tag = Inr report
                    \<and> loop now now' (Some tag) (jsonConfig json g) =
                        (if take (length (tag_uid tag)) (lastUid g) = tag_uid tag
                         then Inr (g\<lparr>tagReadIntervalMs := v, lastTagReadMs := now'\<rparr>, [])
                         else Inr (g\<lparr>tagReadIntervalMs := v, lastTagReadMs := now',
                                     lastUid := tag_uid tag
                                       @ drop (length (tag_uid tag)) (lastUid g)\<rparr>,
                                   [report]))))))
   \<and> (json ''tagReadIntervalMs'' = None \<longrightarrow> jsonConfig json g = g)"
proof (intro conjI impI allI)
  assume "json ''tagReadIntervalMs'' = None"
  then show "jsonConfig json g = g" by (simp add: jsonConfig_def)
next
  assume k: "json ''tagReadIntervalMs'' = Some v"
  then show c: "jsonConfig json g = g\<lparr>tagReadIntervalMs := v\<rparr>" by (simp add: jsonConfig_def)
  show gen: "loop now now' reader (jsonConfig json g) =
          (if now - lastTagReadMs g > v then
             (case processPN532 reader g of
                Inl e \<Rightarrow> Inl e
              | Inr (g', published) \<Rightarrow>
                  Inr (g'\<lparr>tagReadIntervalMs := v, lastTagReadMs := now'\<rparr>, published))
           else Inr (g\<lparr>tagReadIntervalMs := v\<rparr>, []))" for reader
    unfolding c loop_def processPN532_interval
    by (simp split: sum.splits)
  {
    assume "\<not> now - lastTagReadMs g > v"
    then show "loop now now' reader (jsonConfig json g) = Inr (g\<lparr>tagReadIntervalMs := v\<rparr>, [])"
      using gen [of reader] by simp
  }
  {
    assume h: "now - lastTagReadMs g > v \<and> length (lastUid g) = MAX_UID_BYTES"
    then have len: "length (lastUid g) = MAX_UID_BYTES" and gt: "now - lastTagReadMs g > v"
      by simp_all
    show "loop now now' None (jsonConfig json g) =
              Inr (g\<lparr>tagReadIntervalMs := v, lastTagReadMs := now',
                     lastUid := replicate MAX_UID_BYTES 0\<rparr>, [])"
      using gen [of None] gt processPN532_None [OF len] by simp
    fix tag :: NfcTag
    assume L: "length (tag_uid tag) \<le> MAX_UID_BYTES"
    from publishTag_total [OF L] obtain ms where p: "publishTag tag = Inr (JObject ms)" by blast
    have "loop now now' (Some tag) (jsonConfig json g) =
                        (if take (length (tag_uid tag)) (lastUid g) = tag_uid tag
                         then Inr (g\<lparr>tagReadIntervalMs := v, lastTagReadMs := now'\<rparr>, [])
                         else Inr (g\<lparr>tagReadIntervalMs := v, lastTagReadMs := now',
                                     lastUid := tag_uid tag
                                       @ drop (length (tag_uid tag)) (lastUid g)\<rparr>,
                                   [JObject ms]))"
      using gen [of "Some tag"] gt processPN532_Some [OF len L p] by simp
    with p show "\<exists>report. publishTag tag = Inr report
                    \<and> loop now now' (Some tag) (jsonConfig json g) =
                        (if take (length (tag_uid tag)) (lastUid g) = tag_uid tag
                         then Inr (g\<lparr>tagReadIntervalMs := v, lastTagReadMs := now'\<rparr>, [])
                         else Inr (g\<lparr>tagReadIntervalMs := v, lastTagReadMs := now',
                                     lastUid := tag_uid tag
                                       @ drop (length (tag_uid tag)) (lastUid g)\<rparr>,
                                   [report]))"
      by blast
  }
qed


theorem config_interval_applied_without_range_check_witness:
  "jsonConfig [''tagReadIntervalMs'' \<mapsto> 500] initial_globals = initial_globals\<lparr>tagReadIntervalMs := 500\<rparr>
   \<and> loop 400 401 None (jsonConfig [''tagReadIntervalMs'' \<mapsto> 500] initial_globals)
       = Inr (initial_globals\<lparr>tagReadIntervalMs := 500\<rparr>, [])
   \<and> loop 400 401 (Some tag_other) (jsonConfig [''tagReadIntervalMs'' \<mapsto> 500] initial_globals)
       = Inr (initial_globals\<lparr>tagReadIntervalMs := 500\<rparr>, [])
   \<and> loop 501 502 None (jsonConfig [''tagReadIntervalMs'' \<mapsto> 500] initial_globals)
       = Inr (initial_globals\<lparr>tagReadIntervalMs := 500, lastTagReadMs := 502\<rparr>, [])
   \<and> loop 501 502 (Some tag_other) (jsonConfig [''tagReadIntervalMs'' \<mapsto> 500] initial_globals)
       = Inr (holding_other\<lparr>tagReadIntervalMs := 500, lastTagReadMs := 502\<rparr>, [report_other])"
proof -
  let ?json = "[''tagReadIntervalMs'' \<mapsto> (500 :: uint32_t)]"
  have k: "?json ''tagReadIntervalMs'' = Some 500" by simp
  have a: "\<not> (400 :: uint32_t) - lastTagReadMs initial_globals > 500"
    by (simp add: initial_globals_def)
  have b: "(501 :: uint32_t) - lastTagReadMs initial_globals > 500
      \<and> length (lastUid initial_globals) = MAX_UID_BYTES"
    by (simp add: initial_globals_def)
  have z: "initial_globals\<lparr>tagReadIntervalMs := 500, lastTagReadMs := 502,
      lastUid := replicate MAX_UID_BYTES 0\<rparr> = initial_globals\<lparr>tagReadIntervalMs := 500, lastTagReadMs := 502\<rparr>"
    by (simp add: initial_globals_def)
  have L: "length (tag_uid tag_other) \<le> MAX_UID_BYTES" by code_simp
  have p: "publishTag tag_other = Inr report_other" by code_simp
  have ne: "take (length (tag_uid tag_other)) (lastUid initial_globals) \<noteq> tag_uid tag_other"
    by code_simp
  have h: "initial_globals\<lparr>tagReadIntervalMs := 500, lastTagReadMs := 502,
      lastUid := tag_uid tag_other @ drop (length (tag_uid tag_other)) (lastUid initial_globals)\<rparr>
      = holding_other\<lparr>tagReadIntervalMs := 500, lastTagReadMs := 502\<rparr>"
    by code_simp
  note t1 = config_interval_applied_without_range_check
    [of ?json 500 initial_globals 400 401 None, THEN conjunct1, THEN mp, OF k]
  note t1' = config_interval_applied_without_range_check
    [of ?json 500 initial_globals 400 401 "Some tag_other", THEN conjunct1, THEN mp, OF k]
  note t2 = config_interval_applied_without_range_check
    [of ?json 500 initial_globals 501 502 None, THEN conjunct1, THEN mp, OF k]
  have c1: "jsonConfig ?json initial_globals = initial_globals\<lparr>tagReadIntervalMs := 500\<rparr>"
    by (rule t1 [THEN conjunct1])
  have c2: "loop 400 401 None (jsonConfig ?json initial_globals)
       = Inr (initial_globals\<lparr>tagReadIntervalMs := 500\<rparr>, [])"
    by (rule t1 [THEN conjunct2, THEN conjunct2, THEN conjunct1, THEN mp, OF a])
  have c2': "loop 400 401 (Some tag_other) (jsonConfig ?json initial_globals)
       = Inr (initial_globals\<lparr>tagReadIntervalMs := 500\<rparr>, [])"
    by (rule t1' [THEN conjunct2, THEN conjunct2, THEN conjunct1, THEN mp, OF a])
  note polled = t2 [THEN conjunct2, THEN conjunct2, THEN conjunct2, THEN mp, OF b]
  have c3: "loop 501 502 None (jsonConfig ?json initial_globals)
       = Inr (initial_globals\<lparr>tagReadIntervalMs := 500, lastTagReadMs := 502\<rparr>, [])"
    using polled [THEN conjunct1] unfolding z .
  from polled [THEN conjunct2, THEN spec, of tag_other, THEN mp, OF L] obtain report where
    r: "publishTag tag_other = Inr report"
    and l: "loop 501 502 (Some tag_other) (jsonConfig ?json initial_globals) =
        (if take (length (tag_uid tag_other)) (lastUid initial_globals) = tag_uid tag_other
         then Inr (initial_globals\<lparr>tagReadIntervalMs := 500, lastTagReadMs := 502\<rparr>, [])
         else Inr (initial_globals\<lparr>tagReadIntervalMs := 500, lastTagReadMs := 502,
                     lastUid := tag_uid tag_other
                       @ drop (length (tag_uid tag_other)) (lastUid initial_globals)\<rparr>,
                   [report]))"
    by blast
  from r p have "report = report_other" by simp
  with l ne have c4: "loop 501 502 (Some tag_other) (jsonConfig ?json initial_globals)
       = Inr (holding_other\<lparr>tagReadIntervalMs := 500, lastTagReadMs := 502\<rparr>, [report_other])"
    unfolding h [symmetric] by simp
  from c1 c2 c2' c3 c4 show ?thesis by (intro conjI)
qed

text \<open>
  An interval of 70000 ms replaces the default of 200 ms, and a pass of \<open>loop\<close> 65
  seconds after the last poll does not poll.
\<close>

theorem out_of_range_interval_accepted_counterexample:
  "tagReadIntervalMs initial_globals = 200
   \<and> (60000 :: uint32_t) < 70000
   \<and> tagReadIntervalMs (jsonConfig config_70000 initial_globals) = 70000
   \<and> loop 65000 65000 (Some tag_other) (jsonConfig config_70000 initial_globals)
       = Inr (jsonConfig config_70000 initial_globals, [])"
  by (simp add: jsonConfig_def config_70000_def initial_globals_def loop_def
      DEFAULT_TAG_READ_INTERVAL_MS_def)

section \<open>The hex encoder with an \<open>unsigned int\<close> length\<close>

lemma uint_index:
  fixes i :: uint32_t
  assumes "unat i < 2 ^ 31"
  shows "unat (i * 2 + 0) = unat i * 2" "unat (i * 2 + 1) = unat i * 2 + 1" "unat (i * 2) = unat i * 2"
proof -
  show a: "unat (i * 2) = unat i * 2"
    using assms by (simp add: unat_word_ariths)
  then show "unat (i * 2 + 0) = unat i * 2" by simp
  show "unat (i * 2 + 1) = unat i * 2 + 1"
    using assms a by (simp add: unat_word_ariths)
qed

lemma toHexString_uint_loop_eq:
  assumes "i \<le> len" "unat len \<le> length data" "2 * unat len \<le> length buffer" "unat len < 2 ^ 31"
  shows "toHexString_uint_loop buffer data len i =
     Inr (take (2 * unat i) buffer @ hex_of (take (unat len - unat i) (drop (unat i) data))
          @ drop (2 * unat len) buffer)"
  using assms
proof (induction buffer data len i rule: toHexString_uint_loop.induct)
  case (1 buffer data len i)
  show ?case
  proof (cases "i < len")
    case False
    with "1.prems" have "i = len" by simp
    then show ?thesis
      using "1.prems" by (subst toHexString_uint_loop.simps) (simp add: hex_of_def)
  next
    case True
    then have lt: "unat i < unat len" by (simp add: word_less_nat_alt)
    then have small: "unat i < 2 ^ 31" using "1.prems" by simp
    have suc: "unat (i + 1) = Suc (unat i)" by (rule word_succ_unat [OF True])
    have le': "i + 1 \<le> len" using True by (rule inc_le)
    let ?d = "data ! unat i"
    let ?c1 = "nibble_char ((drop_bit 4 ?d) AND 0x0F)"
    let ?c2 = "nibble_char ((drop_bit 0 ?d) AND 0x0F)"
    let ?b1 = "buffer[unat (i * 2 + 0) := ?c1]"
    let ?b2 = "?b1[unat (i * 2 + 1) := ?c2]"
    have g: "array_get data (unat i) = Inr ?d"
      using lt "1.prems" by (simp add: array_get_def)
    have s1: "array_set buffer (unat (i * 2 + 0)) ?c1 = Inr ?b1"
      using lt "1.prems" uint_index(1) [OF small] by (simp add: array_set_def)
    have s2: "array_set ?b1 (unat (i * 2 + 1)) ?c2 = Inr ?b2"
      using lt "1.prems" uint_index(2) [OF small] by (simp add: array_set_def)
    have b2: "?b2 = buffer[2 * unat i := ?c1, 2 * unat i + 1 := ?c2]"
      by (simp only: uint_index(1,2) [OF small] mult.commute)
    have IH: "toHexString_uint_loop ?b2 data len (i + 1) =
       Inr (take (2 * unat (i + 1)) ?b2 @ hex_of (take (unat len - unat (i + 1)) (drop (unat (i + 1)) data))
          @ drop (2 * unat len) ?b2)"
      using "1.IH" [OF True g refl refl s1 s2 le'] "1.prems" by simp
    have t: "take (2 * unat (i + 1)) ?b2 = take (2 * unat i) buffer @ [?c1, ?c2]"
      unfolding b2 using update2_take [of "unat i" buffer ?c1 ?c2] lt "1.prems" by (simp add: suc)
    have dr: "drop (2 * unat len) ?b2 = drop (2 * unat len) buffer"
      unfolding b2 using lt by simp
    have tk: "take (unat len - unat i) (drop (unat i) data) =
        ?d # take (unat len - unat (i + 1)) (drop (unat (i + 1)) data)"
      using lt "1.prems" by (simp add: suc Cons_nth_drop_Suc [symmetric] Suc_diff_Suc [symmetric] del: Suc_diff_Suc)
    have step: "toHexString_uint_loop buffer data len i = toHexString_uint_loop ?b2 data len (i + 1)"
      using True g s1 s2 by (subst toHexString_uint_loop.simps) (simp add: Let_def)
    show ?thesis
      unfolding step IH t dr tk by (simp add: hex_of_def hex_pair_def)
  qed
qed

lemma toHexString_uint_eq:
  assumes "unat len \<le> length data" "2 * unat len + 1 \<le> length buffer" "unat len < 2 ^ 31"
  shows "toHexString_uint buffer data len =
     Inr (hex_of (take (unat len) data) @ CHR 0x00 # drop (2 * unat len + 1) buffer)"
proof -
  have "toHexString_uint_loop buffer data len 0 =
      Inr (hex_of (take (unat len) data) @ drop (2 * unat len) buffer)"
    using toHexString_uint_loop_eq [of 0 len data buffer] assms by simp
  moreover have "length (hex_of (take (unat len) data)) = 2 * unat len"
    using assms by (simp add: length_hex_of)
  moreover have "unat (len * 2) = unat len * 2"
    by (rule uint_index(3) [OF assms(3)])
  ultimately show ?thesis
    using assms
    by (simp add: toHexString_uint_def array_set_def list_update_append mult.commute
        upd_conv_take_nth_drop)
qed




section \<open>Hex encoding\<close>





section \<open>The full stop among the output characters\<close>

lemma char_of_unat_eq_dot:
  fixes d :: byte
  shows "char_of (unat d) = CHR ''.'' \<longleftrightarrow> d = 0x2E"
proof
  assume "char_of (unat d) = CHR ''.''"
  then have "(of_char (char_of (unat d)) :: nat) = of_char CHR ''.''" by (rule arg_cong)
  moreover have "unat d < 256" using unsigned_less [of d, where 'a=nat] by simp
  ultimately have "unat d = 46" by simp
  then have "(of_nat (unat d) :: byte) = of_nat 46" by (rule arg_cong)
  then show "d = 0x2E" by simp
next
  assume "d = 0x2E"
  then show "char_of (unat d) = CHR ''.''" by (simp add: char_of_def bit_0)
qed

lemma ascii_char_dot_iff: "ascii_char d = CHR ''.'' \<longleftrightarrow> d \<le> 0x1F \<or> d = 0x2E"
  by (auto simp: ascii_char_def char_of_unat_eq_dot)

section \<open>ASCII-safe encoding\<close>

text \<open>
  C4, as the code has it. For a byte sequence \<open>b\<close> of length \<open>n \<le> 255\<close> with
  \<open>n + 1\<close> within the destination buffer, the output string has length \<open>n\<close> and is
  followed by the terminator; character \<open>i\<close> is \<open>.\<close> when \<open>b[i] \<le> 0x1F\<close> and the
  character with code \<open>b[i]\<close> otherwise (bytes from \<open>0x80\<close> pass through). Hence
  character \<open>i\<close> is \<open>.\<close> exactly when \<open>b[i] \<le> 0x1F\<close> or \<open>b[i] = 0x2E\<close>.
\<close>

theorem toAsciiString_replaces_control_bytes:
  assumes "length b = n" and "n \<le> 255" and "n + 1 \<le> length buffer"
  shows "\<exists>buffer'. toAsciiString buffer b (of_nat n) = Inr buffer'
           \<and> length (c_str buffer') = n \<and> buffer' ! n = CHR 0x00
           \<and> length buffer' = length buffer
           \<and> (\<forall>i < n. c_str buffer' ! i = (if b ! i \<le> 0x1F then CHR ''.'' else char_of (unat (b ! i)))
                    \<and> (c_str buffer' ! i = CHR ''.'' \<longleftrightarrow> b ! i \<le> 0x1F \<or> b ! i = 0x2E))"
proof -
  let ?r = "ascii_of b @ CHR 0x00 # drop (n + 1) buffer"
  have u: "unat (of_nat n :: uint8_t) = n" using assms(2) by (simp add: unat_of_nat)
  have "toAsciiString buffer b (of_nat n) =
      Inr (ascii_of (take (unat (of_nat n :: uint8_t)) b) @ CHR 0x00
           # drop (unat (of_nat n :: uint8_t) + 1) buffer)"
    using assms by (intro toAsciiString_eq) (simp_all add: u)
  then have r: "toAsciiString buffer b (of_nat n) = Inr ?r"
    using assms by (simp add: u)
  have c: "c_str ?r = ascii_of b" by (rule c_str_ascii_of)
  have l: "length (ascii_of b) = n" using assms by (simp add: ascii_of_def)
  have z: "?r ! n = CHR 0x00" using l by (simp add: nth_append)
  have len: "length ?r = length buffer" using assms l by simp
  have each: "\<forall>i < n. ascii_of b ! i = (if b ! i \<le> 0x1F then CHR ''.'' else char_of (unat (b ! i)))
                    \<and> (ascii_of b ! i = CHR ''.'' \<longleftrightarrow> b ! i \<le> 0x1F \<or> b ! i = 0x2E)"
  proof (intro allI impI)
    fix i assume "i < n"
    then have "ascii_of b ! i = ascii_char (b ! i)" using assms by (simp add: ascii_of_def)
    then show "ascii_of b ! i = (if b ! i \<le> 0x1F then CHR ''.'' else char_of (unat (b ! i)))
                    \<and> (ascii_of b ! i = CHR ''.'' \<longleftrightarrow> b ! i \<le> 0x1F \<or> b ! i = 0x2E)"
      using ascii_char_dot_iff [of "b ! i"] by (simp add: ascii_char_def)
  qed
  from r c l z len each show ?thesis by (simp only: sum.inject ex_simps simp_thms)
qed

theorem toAsciiString_replaces_control_bytes_witness:
  "toAsciiString (replicate 8 (CHR ''?'')) [0x02, 0x65, 0x6E, 0x2E, 0x1F, 0x80] (of_nat 6)
     = Inr ([CHR ''.'', CHR ''e'', CHR ''n'', CHR ''.'', CHR ''.'', CHR 0x80, CHR 0x00, CHR ''?''])
   \<and> c_str [CHR ''.'', CHR ''e'', CHR ''n'', CHR ''.'', CHR ''.'', CHR 0x80, CHR 0x00, CHR ''?'']
     = [CHR ''.'', CHR ''e'', CHR ''n'', CHR ''.'', CHR ''.'', CHR 0x80]"
proof -
  let ?b = "[0x02, 0x65, 0x6E, 0x2E, 0x1F, 0x80] :: byte list"
  have h1: "length ?b = 6" by simp
  have h2: "(6 :: nat) \<le> 255" by simp
  have h3: "6 + 1 \<le> length (replicate 8 (CHR ''?''))" by simp
  have e: "toAsciiString (replicate 8 (CHR ''?'')) ?b (of_nat 6)
     = Inr ([CHR ''.'', CHR ''e'', CHR ''n'', CHR ''.'', CHR ''.'', CHR 0x80, CHR 0x00, CHR ''?''])"
    by code_simp
  have c: "c_str [CHR ''.'', CHR ''e'', CHR ''n'', CHR ''.'', CHR ''.'', CHR 0x80, CHR 0x00, CHR ''?'']
     = [CHR ''.'', CHR ''e'', CHR ''n'', CHR ''.'', CHR ''.'', CHR 0x80]"
    by code_simp
  from toAsciiString_replaces_control_bytes [OF h1 h2 h3] obtain buffer' where
    "toAsciiString (replicate 8 (CHR ''?'')) ?b (of_nat 6) = Inr buffer'"
    by blast
  with e c show ?thesis by simp
qed

text \<open>
  The byte \<open>0x2E\<close> is above \<open>0x1F\<close> and is rendered as \<open>.\<close>, its own character. A
  sequence of 256 bytes arrives with length 0 and gives the empty string.
\<close>

theorem toAsciiString_dot_byte_and_long_input_counterexample:
  "toAsciiString (replicate 4 (CHR ''?'')) [0x2E] (of_nat 1) = Inr [CHR ''.'', CHR 0x00, CHR ''?'', CHR ''?'']
   \<and> \<not> (0x2E :: byte) \<le> 0x1F
   \<and> length payload256 + 1 \<le> length (replicate 1024 (CHR ''?''))
   \<and> toAsciiString (replicate 1024 (CHR ''?'')) payload256 (of_nat (length payload256))
       = Inr (CHR 0x00 # replicate 1023 (CHR ''?''))"
  by code_simp

section \<open>The block read in closed form\<close>

text \<open>
  The two inner loops copy the sixteen data bytes of the driver's buffer to the cells
  \<open>dataCount\<close> to \<open>dataCount + 15\<close> of the caller's array. The page loop does so for
  the pages 4, 8 and 12, and stops at the first read that fails.
\<close>

lemma readData_loop_j_eq:
  assumes "j \<le> 4" "c + (4 - j) \<le> length data"
  shows "readData_loop_j buffer i j data c =
     Inr (take c data @ map (\<lambda>k. buffer (4 * i + k)) [j..<4] @ drop (c + (4 - j)) data, c + (4 - j))"
  using assms
proof (induction buffer i j data c rule: readData_loop_j.induct)
  case (1 buffer i j data c)
  show ?case
  proof (cases "j \<le> 3")
    case False
    with "1.prems" have "j = 4" by simp
    then show ?thesis by (subst readData_loop_j.simps) simp
  next
    case True
    let ?v = "buffer (4 * i + j)"
    have lt: "c < length data" using True "1.prems" by simp
    have s: "array_set data c ?v = Inr (data[c := ?v])"
      using lt by (simp add: array_set_def)
    have IH: "readData_loop_j buffer i (j + 1) (data[c := ?v]) (c + 1) =
        Inr (take (c + 1) (data[c := ?v]) @ map (\<lambda>k. buffer (4 * i + k)) [j + 1..<4]
             @ drop (c + 1 + (4 - (j + 1))) (data[c := ?v]), c + 1 + (4 - (j + 1)))"
      using "1.IH" [OF True s] True "1.prems" by simp
    have t: "take (c + 1) (data[c := ?v]) = take c data @ [?v]"
      using lt by (simp add: take_Suc_conv_app_nth)
    have n: "c + 1 + (4 - (j + 1)) = c + (4 - j)" using True by simp
    have d: "drop (c + (4 - j)) (data[c := ?v]) = drop (c + (4 - j)) data"
      using True by simp
    have u: "[j..<4] = j # [j + 1..<4]"
      using True by (simp add: upt_conv_Cons)
    have step: "readData_loop_j buffer i j data c =
        readData_loop_j buffer i (j + 1) (data[c := ?v]) (c + 1)"
      using True s by (subst readData_loop_j.simps) simp
    show ?thesis
      unfolding step IH t n d u by simp
  qed
qed

lemma readData_loop_i_eq:
  assumes "i \<le> 4" "c + 4 * (4 - i) \<le> length data"
  shows "readData_loop_i buffer i data c =
     Inr (take c data @ map buffer [4 * i..<16] @ drop (c + 4 * (4 - i)) data, c + 4 * (4 - i))"
  using assms
proof (induction buffer i data c rule: readData_loop_i.induct)
  case (1 buffer i data c)
  show ?case
  proof (cases "i \<le> 3")
    case False
    with "1.prems" have "i = 4" by simp
    then show ?thesis by (subst readData_loop_i.simps) simp
  next
    case True
    let ?row = "map (\<lambda>k. buffer (4 * i + k)) [0..<4]"
    let ?d1 = "take c data @ ?row @ drop (c + 4) data"
    have c4: "c + 4 \<le> length data" using True "1.prems" by simp
    have j: "readData_loop_j buffer i 0 data c = Inr (?d1, c + 4)"
      using readData_loop_j_eq [of 0 c data buffer i] c4 by simp
    have l1: "length ?d1 = length data" using c4 by simp
    have IH: "readData_loop_i buffer (i + 1) ?d1 (c + 4) =
        Inr (take (c + 4) ?d1 @ map buffer [4 * (i + 1)..<16]
             @ drop (c + 4 + 4 * (4 - (i + 1))) ?d1, c + 4 + 4 * (4 - (i + 1)))"
      using "1.IH" [OF True j refl] True "1.prems" l1 by simp
    have t: "take (c + 4) ?d1 = take c data @ ?row"
      using c4 by simp
    have n: "c + 4 + 4 * (4 - (i + 1)) = c + 4 * (4 - i)" using True by simp
    define m where "m = 4 * (3 - i)"
    have m: "4 * (4 - i) = 4 + m" using True by (simp add: m_def)
    have "drop (c + 4 + m) ((take c data @ ?row) @ drop (c + 4) data) = drop m (drop (c + 4) data)"
      using c4 by (subst drop_append) simp
    then have d: "drop (c + 4 * (4 - i)) ?d1 = drop (c + 4 * (4 - i)) data"
      unfolding m by (simp add: add.commute add.left_commute)
    have "[4 * i..<4 * i + 4] = map (\<lambda>k. k + 4 * i) [0..<4]"
      using map_add_upt [of "4 * i" 4] by (simp add: add.commute)
    then have "map buffer [4 * i..<4 * i + 4] = map buffer (map (\<lambda>k. k + 4 * i) [0..<4])"
      by (rule arg_cong)
    then have row: "?row = map buffer [4 * i..<4 * i + 4]"
      by (simp add: o_def add.commute)
    have u: "[4 * i..<16] = [4 * i..<4 * i + 4] @ [4 * (i + 1)..<16]"
      using True upt_add_eq_append [of "4 * i" "4 * i + 4" "16 - (4 * i + 4)"]
      by (simp add: add.commute)
    have step: "readData_loop_i buffer i data c = readData_loop_i buffer (i + 1) ?d1 (c + 4)"
      using True j by (subst readData_loop_i.simps) simp
    have cat: "map buffer [4 * i..<16] = ?row @ map buffer [4 * (i + 1)..<16]"
      unfolding row by (subst u) (rule map_append)
    have "readData_loop_i buffer i data c = readData_loop_i buffer (i + 1) ?d1 (c + 4)"
      by (rule step)
    also have "\<dots> = Inr (take (c + 4) ?d1 @ map buffer [4 * (i + 1)..<16]
             @ drop (c + 4 + 4 * (4 - (i + 1))) ?d1, c + 4 + 4 * (4 - (i + 1)))"
      by (rule IH)
    also have "\<dots> = Inr ((take c data @ ?row) @ map buffer [4 * (i + 1)..<16]
             @ drop (c + 4 * (4 - i)) data, c + 4 * (4 - i))"
      by (simp only: t n d)
    also have "\<dots> = Inr (take c data @ map buffer [4 * i..<16]
             @ drop (c + 4 * (4 - i)) data, c + 4 * (4 - i))"
      by (simp only: cat append_assoc)
    finally show ?thesis .
  qed
qed

lemma readData_block:
  assumes "c + 16 \<le> length data"
  shows "readData_loop_i buffer 0 data c = Inr (take c data @ block16 buffer @ drop (c + 16) data, c + 16)"
  using readData_loop_i_eq [of 0 c data buffer] assms by (simp add: block16_def)


lemma readData_loop_page_step:
  assumes "page \<le> 15" and "MIFARE_Read mfrc522 page buffer byteCount = (status, buffer', byteCount')"
    and "dataCount + 16 \<le> length data"
  shows "readData_loop_page mfrc522 page buffer byteCount data dataCount log =
     (if status \<noteq> STATUS_OK then Inr (data, dataCount, read_failed mfrc522 log status)
      else readData_loop_page mfrc522 (page + 4) buffer' byteCount'
             (take dataCount data @ block16 buffer' @ drop (dataCount + 16) data)
             (dataCount + 16) log)"
  using assms readData_block [OF assms(3), of buffer']
  by (subst readData_loop_page.simps)
     (simp add: read_failed_def logger_print_def logger_println_def)

lemma readData_loop_page_end:
  "readData_loop_page mfrc522 16 buffer byteCount data dataCount log = Inr (data, dataCount, log)"
  by (subst readData_loop_page.simps) simp

lemma readData_MIFARE_UL_eq:
  assumes "48 \<le> length data"
    and r1: "MIFARE_Read mfrc522 4 (\<lambda>k. 0) 18 = (s1, b1, c1)"
    and r2: "MIFARE_Read mfrc522 8 b1 c1 = (s2, b2, c2)"
    and r3: "MIFARE_Read mfrc522 12 b2 c2 = (s3, b3, c3)"
  shows "readData_MIFARE_UL mfrc522 data log =
     (if s1 \<noteq> STATUS_OK then Inr (data, 0, read_failed mfrc522 log s1)
      else if s2 \<noteq> STATUS_OK then
        Inr (block16 b1 @ drop 16 data, 16, read_failed mfrc522 log s2)
      else if s3 \<noteq> STATUS_OK then
        Inr (block16 b1 @ block16 b2 @ drop 32 data, 32, read_failed mfrc522 log s3)
      else Inr (block16 b1 @ block16 b2 @ block16 b3 @ drop 48 data, 48, log))"
proof -
  let ?d1 = "block16 b1 @ drop 16 data"
  let ?d2 = "block16 b1 @ block16 b2 @ drop 32 data"
  let ?d3 = "block16 b1 @ block16 b2 @ block16 b3 @ drop 48 data"
  have l: "length (block16 b) = 16" for b by (simp add: block16_def)
  have p1: "readData_loop_page mfrc522 4 (\<lambda>k. 0) 18 data 0 log =
      (if s1 \<noteq> STATUS_OK then Inr (data, 0, read_failed mfrc522 log s1)
       else readData_loop_page mfrc522 8 b1 c1 ?d1 16 log)"
    using readData_loop_page_step [of 4 mfrc522 "\<lambda>k. 0" 18 s1 b1 c1 0 data log] r1 assms(1)
    by simp
  have e2: "take 16 ?d1 @ block16 b2 @ drop (16 + 16) ?d1 = ?d2"
    using assms(1) by (simp add: l)
  have p2: "readData_loop_page mfrc522 8 b1 c1 ?d1 16 log =
      (if s2 \<noteq> STATUS_OK then Inr (?d1, 16, read_failed mfrc522 log s2)
       else readData_loop_page mfrc522 12 b2 c2 ?d2 32 log)"
    using readData_loop_page_step [of 8 mfrc522 b1 c1 s2 b2 c2 16 ?d1 log] r2 assms(1)
    by (simp only: e2) (simp add: l)
  have e3: "take 32 ?d2 @ block16 b3 @ drop (32 + 16) ?d2 = ?d3"
    using assms(1) by (simp add: l)
  have p3: "readData_loop_page mfrc522 12 b2 c2 ?d2 32 log =
      (if s3 \<noteq> STATUS_OK then Inr (?d2, 32, read_failed mfrc522 log s3)
       else readData_loop_page mfrc522 16 b3 c3 ?d3 48 log)"
    using readData_loop_page_step [of 12 mfrc522 b2 c2 s3 b3 c3 32 ?d2 log] r3 assms(1)
    by (simp only: e3) (simp add: l)
  show ?thesis
    unfolding readData_MIFARE_UL_def p1 p2 p3 readData_loop_page_end by simp
qed


lemma publishCard_eq:
  assumes wf: "length (uidByte uid) = 10" "unat (uid_size uid) \<le> 10"
    and rd: "(if PICC_GetType mfrc522 (sak uid) = PICC_TYPE_MIFARE_UL
              then readData_MIFARE_UL mfrc522 (replicate 64 0) log
              else Inr (replicate 64 0, 0, log)) = Inr (data, data_len, log')"
    and dl: "unat data_len \<le> 48" "length data = 64"
  shows "publishCard mfrc522 uid log =
     Inr (JObject [(''sak'', JInt (uint (sak uid))),
                   (''type'', JString (PICC_GetTypeName mfrc522 (PICC_GetType mfrc522 (sak uid)))),
                   (''uid'', JString (hex_of (take (unat (uid_size uid)) (uidByte uid)))),
                   (''data'', JString (hex_of (take (unat data_len) data)))], log')"
proof -
  let ?n = "unat (uid_size uid)"
  let ?len = "ucast (uid_size uid) :: uint32_t"
  let ?b0 = "replicate 128 (CHR 0x00)"
  let ?b1 = "hex_of (take ?n (uidByte uid)) @ CHR 0x00 # drop (2 * ?n + 1) ?b0"
  let ?b2 = "hex_of (take (unat data_len) data) @ CHR 0x00 # drop (2 * unat data_len + 1) ?b1"
  have "unat (uid_size uid) < 2 ^ 32"
    using unsigned_less [of "uid_size uid", where 'a=nat] by simp
  then have u: "unat ?len = ?n"
    by (simp add: unsigned_ucast_eq take_bit_nat_eq_self)
  have "toHexString_uint ?b0 (uidByte uid) ?len =
      Inr (hex_of (take (unat ?len) (uidByte uid)) @ CHR 0x00 # drop (2 * unat ?len + 1) ?b0)"
    using wf by (intro toHexString_uint_eq) (simp_all add: u)
  then have h1: "toHexString_uint ?b0 (uidByte uid) ?len = Inr ?b1" by (simp only: u)
  have l1: "length ?b1 = 128" using wf by (simp add: length_hex_of)
  have h2: "toHexString_uint ?b1 data data_len = Inr ?b2"
    using dl l1 by (intro toHexString_uint_eq) simp_all
  have c1: "c_str ?b1 = hex_of (take ?n (uidByte uid))" by (rule c_str_hex_of)
  have c2: "c_str ?b2 = hex_of (take (unat data_len) data)" by (rule c_str_hex_of)
  show ?thesis
    unfolding publishCard_def Let_def rd
    by (simp only: h1 h2 c1 c2 sum.case prod.case) simp
qed


lemma readData_MIFARE_UL_cases:
  assumes "length data = 64"
  shows "\<exists>data' n log'. readData_MIFARE_UL mfrc522 data log = Inr (data', n, log')
           \<and> (n = 0 \<or> n = 16 \<or> n = 32 \<or> n = 48)
           \<and> length data' = 64
           \<and> drop (unat n) data' = drop (unat n) data
           \<and> (\<exists>blocks. 16 * length blocks = unat n
                 \<and> take (unat n) data' = concat (map block16 blocks))"
proof -
  obtain s1 b1 c1 where r1: "MIFARE_Read mfrc522 4 (\<lambda>k. 0) 18 = (s1, b1, c1)"
    by (cases "MIFARE_Read mfrc522 4 (\<lambda>k. 0) 18") blast
  obtain s2 b2 c2 where r2: "MIFARE_Read mfrc522 8 b1 c1 = (s2, b2, c2)"
    by (cases "MIFARE_Read mfrc522 8 b1 c1") blast
  obtain s3 b3 c3 where r3: "MIFARE_Read mfrc522 12 b2 c2 = (s3, b3, c3)"
    by (cases "MIFARE_Read mfrc522 12 b2 c2") blast
  have len: "48 \<le> length data" using assms by simp
  note e = readData_MIFARE_UL_eq [OF len r1 r2 r3, of log]
  have l: "length (block16 b) = 16" for b by (simp add: block16_def)
  consider (f1) "s1 \<noteq> STATUS_OK"
    | (f2) "s1 = STATUS_OK" "s2 \<noteq> STATUS_OK"
    | (f3) "s1 = STATUS_OK" "s2 = STATUS_OK" "s3 \<noteq> STATUS_OK"
    | (ok) "s1 = STATUS_OK" "s2 = STATUS_OK" "s3 = STATUS_OK"
    by blast
  then show ?thesis
  proof cases
    case f1
    then have "readData_MIFARE_UL mfrc522 data log = Inr (data, 0, read_failed mfrc522 log s1)"
      using e by simp
    moreover have "16 * length ([] :: (nat \<Rightarrow> byte) list) = unat (0 :: uint32_t)
        \<and> take (unat (0 :: uint32_t)) data = concat (map block16 [])"
      by simp
    ultimately show ?thesis using assms by (intro exI conjI) (assumption | simp)+
  next
    case f2
    then have "readData_MIFARE_UL mfrc522 data log =
        Inr (block16 b1 @ drop 16 data, 16, read_failed mfrc522 log s2)"
      using e by simp
    moreover have "16 * length [b1] = unat (16 :: uint32_t)
        \<and> take (unat (16 :: uint32_t)) (block16 b1 @ drop 16 data) = concat (map block16 [b1])"
      by (simp add: l)
    moreover have "drop (unat (16 :: uint32_t)) (block16 b1 @ drop 16 data)
        = drop (unat (16 :: uint32_t)) data"
      by (simp add: l)
    moreover have "length (block16 b1 @ drop 16 data) = 64" using assms by (simp add: l)
    ultimately show ?thesis by blast
  next
    case f3
    then have "readData_MIFARE_UL mfrc522 data log =
        Inr (block16 b1 @ block16 b2 @ drop 32 data, 32, read_failed mfrc522 log s3)"
      using e by simp
    moreover have "16 * length [b1, b2] = unat (32 :: uint32_t)
        \<and> take (unat (32 :: uint32_t)) (block16 b1 @ block16 b2 @ drop 32 data)
            = concat (map block16 [b1, b2])"
      by (simp add: l)
    moreover have "drop (unat (32 :: uint32_t)) (block16 b1 @ block16 b2 @ drop 32 data)
        = drop (unat (32 :: uint32_t)) data"
      by (simp add: l)
    moreover have "length (block16 b1 @ block16 b2 @ drop 32 data) = 64"
      using assms by (simp add: l)
    ultimately show ?thesis by blast
  next
    case ok
    then have "readData_MIFARE_UL mfrc522 data log =
        Inr (block16 b1 @ block16 b2 @ block16 b3 @ drop 48 data, 48, log)"
      using e by simp
    moreover have "16 * length [b1, b2, b3] = unat (48 :: uint32_t)
        \<and> take (unat (48 :: uint32_t)) (block16 b1 @ block16 b2 @ block16 b3 @ drop 48 data)
            = concat (map block16 [b1, b2, b3])"
      by (simp add: l)
    moreover have "drop (unat (48 :: uint32_t)) (block16 b1 @ block16 b2 @ block16 b3 @ drop 48 data)
        = drop (unat (48 :: uint32_t)) data"
      by (simp add: l)
    moreover have "length (block16 b1 @ block16 b2 @ block16 b3 @ drop 48 data) = 64"
      using assms by (simp add: l)
    ultimately show ?thesis by blast
  qed
qed

section \<open>Bounds of the secondary block read\<close>

lemma concat_block16_nth:
  assumes "k < 16 * length bs"
  shows "concat (map block16 bs) ! k = (bs ! (k div 16)) (k mod 16)"
  using assms
proof (induction bs arbitrary: k)
  case Nil
  then show ?case by simp
next
  case (Cons b bs)
  have l: "length (block16 b) = 16" by (simp add: block16_def)
  show ?case
  proof (cases "k < 16")
    case True
    then have "concat (map block16 (b # bs)) ! k = block16 b ! k"
      by (simp add: nth_append l)
    also have "\<dots> = b k" using True by (simp add: block16_def)
    finally show ?thesis using True by simp
  next
    case False
    then obtain m where m: "k = 16 + m" using le_Suc_ex [of 16 k] by auto
    with Cons.prems have "m < 16 * length bs" by simp
    from Cons.IH [OF this] have "concat (map block16 bs) ! m = (bs ! (m div 16)) (m mod 16)" .
    moreover have "concat (map block16 (b # bs)) ! k = concat (map block16 bs) ! m"
      unfolding m by (simp add: nth_append l)
    moreover have "k div 16 = Suc (m div 16)" "k mod 16 = m mod 16"
      unfolding m by simp_all
    ultimately show ?thesis by simp
  qed
qed

text \<open>
  C9. For the caller's 64-byte array and any behaviour of the driver,
  \<open>readData_MIFARE_UL\<close> returns without a write outside the array. With \<open>blocks\<close> the
  buffers of the reads that succeeded before the first failure, in order, the returned
  count is \<open>16 * length blocks\<close>, one of 0, 16, 32 and 48; cell \<open>k\<close> below the count
  holds byte \<open>k mod 16\<close> of block \<open>k div 16\<close>; the cells from the count on are
  unchanged; and the logger receives the failure line exactly when a read failed.
\<close>

theorem readData_MIFARE_UL_count_and_bounds:
  assumes "length data = 64"
    and "MIFARE_Read mfrc522 4 (\<lambda>k. 0) 18 = (s1, b1, c1)"
    and "MIFARE_Read mfrc522 8 b1 c1 = (s2, b2, c2)"
    and "MIFARE_Read mfrc522 12 b2 c2 = (s3, b3, c3)"
    and "blocks = (if s1 \<noteq> STATUS_OK then []
                   else if s2 \<noteq> STATUS_OK then [b1]
                   else if s3 \<noteq> STATUS_OK then [b1, b2] else [b1, b2, b3])"
  shows "\<exists>data' n log'. readData_MIFARE_UL mfrc522 data log = Inr (data', n, log')
           \<and> (n = 0 \<or> n = 16 \<or> n = 32 \<or> n = 48)
           \<and> unat n = 16 * length blocks
           \<and> length data' = 64
           \<and> take (unat n) data' = concat (map block16 blocks)
           \<and> (\<forall>k < unat n. data' ! k = (blocks ! (k div 16)) (k mod 16))
           \<and> drop (unat n) data' = drop (unat n) data
           \<and> log' = (if s1 \<noteq> STATUS_OK then read_failed mfrc522 log s1
                      else if s2 \<noteq> STATUS_OK then read_failed mfrc522 log s2
                      else if s3 \<noteq> STATUS_OK then read_failed mfrc522 log s3
                      else log)"
proof -
  let ?n = "16 * length blocks"
  let ?data' = "concat (map block16 blocks) @ drop ?n data"
  let ?log' = "if s1 \<noteq> STATUS_OK then read_failed mfrc522 log s1
               else if s2 \<noteq> STATUS_OK then read_failed mfrc522 log s2
               else if s3 \<noteq> STATUS_OK then read_failed mfrc522 log s3
               else log"
  have len: "48 \<le> length data" using assms(1) by simp
  have l: "length (block16 b) = 16" for b by (simp add: block16_def)
  have lb: "length blocks \<le> 3" using assms(5) by simp
  have lc: "length (concat (map block16 blocks)) = ?n"
    using assms(5) by (simp add: l)
  have nn: "(of_nat ?n :: uint32_t) = 0 \<or> (of_nat ?n :: uint32_t) = 16
      \<or> (of_nat ?n :: uint32_t) = 32 \<or> (of_nat ?n :: uint32_t) = 48"
    using assms(5) by simp
  have "length blocks = 0 \<or> length blocks = 1 \<or> length blocks = 2 \<or> length blocks = 3"
    using assms(5) by simp
  then have un: "unat (of_nat ?n :: uint32_t) = ?n"
    by (elim disjE) simp_all
  have r: "readData_MIFARE_UL mfrc522 data log = Inr (?data', of_nat ?n, ?log')"
    using readData_MIFARE_UL_eq [OF len assms(2) assms(3) assms(4), of log] assms(5)
    by simp
  have ld: "length ?data' = 64"
    using assms(1) lb lc by simp
  have tk: "take ?n ?data' = concat (map block16 blocks)"
    using lc by simp
  have dr: "drop ?n ?data' = drop ?n data"
    using lc by simp
  have cells: "\<forall>k < ?n. ?data' ! k = (blocks ! (k div 16)) (k mod 16)"
  proof (intro allI impI)
    fix k assume k: "k < ?n"
    then have "?data' ! k = concat (map block16 blocks) ! k"
      using lc by (simp add: nth_append)
    with concat_block16_nth [OF k] show "?data' ! k = (blocks ! (k div 16)) (k mod 16)"
      by simp
  qed
  show ?thesis
  proof (intro exI conjI)
    show "readData_MIFARE_UL mfrc522 data log = Inr (?data', of_nat ?n, ?log')" by (rule r)
    show "(of_nat ?n :: uint32_t) = 0 \<or> (of_nat ?n :: uint32_t) = 16
      \<or> (of_nat ?n :: uint32_t) = 32 \<or> (of_nat ?n :: uint32_t) = 48" by (rule nn)
    show "unat (of_nat ?n :: uint32_t) = ?n" by (rule un)
    show "length ?data' = 64" by (rule ld)
    show "take (unat (of_nat ?n :: uint32_t)) ?data' = concat (map block16 blocks)"
      unfolding un by (rule tk)
    show "\<forall>k < unat (of_nat ?n :: uint32_t). ?data' ! k = (blocks ! (k div 16)) (k mod 16)"
      unfolding un by (rule cells)
    show "drop (unat (of_nat ?n :: uint32_t)) ?data' = drop (unat (of_nat ?n :: uint32_t)) data"
      unfolding un by (rule dr)
    show "?log' = ?log'" by (rule refl)
  qed
qed

theorem readData_MIFARE_UL_count_and_bounds_witness:
  "readData_MIFARE_UL demo_mfrc522 (replicate 64 0xFF) []
     = Inr ([0, 1, 2, 3, 4, 5, 6, 7, 8, 9, 10, 11, 12, 13, 14, 15] @ replicate 48 0xFF, 16,
            ''MIFARE_Read() failed: Timeout in communication.'' @ [CHR 0x0D, CHR 0x0A])
   \<and> block16 of_nat = [0, 1, 2, 3, 4, 5, 6, 7, 8, 9, 10, 11, 12, 13, 14, 15]"
proof -
  have h: "length (replicate 64 (0xFF :: byte)) = 64" by simp
  have r1: "MIFARE_Read demo_mfrc522 4 (\<lambda>k. 0) 18 = (STATUS_OK, of_nat, 18)"
    by (simp add: demo_mfrc522_def)
  have r2: "MIFARE_Read demo_mfrc522 8 of_nat 18 = (STATUS_TIMEOUT, of_nat, 18)"
    by (simp add: demo_mfrc522_def)
  have r3: "MIFARE_Read demo_mfrc522 12 of_nat 18 = (STATUS_TIMEOUT, of_nat, 18)"
    by (simp add: demo_mfrc522_def)
  have bl: "[of_nat :: nat \<Rightarrow> byte] = (if STATUS_OK \<noteq> STATUS_OK then []
                   else if STATUS_TIMEOUT \<noteq> STATUS_OK then [of_nat]
                   else if STATUS_TIMEOUT \<noteq> STATUS_OK then [of_nat, of_nat]
                   else [of_nat, of_nat, of_nat])"
    by simp
  have e: "readData_MIFARE_UL demo_mfrc522 (replicate 64 0xFF) []
     = Inr ([0, 1, 2, 3, 4, 5, 6, 7, 8, 9, 10, 11, 12, 13, 14, 15] @ replicate 48 0xFF, 16,
            ''MIFARE_Read() failed: Timeout in communication.'' @ [CHR 0x0D, CHR 0x0A])"
    by code_simp
  from readData_MIFARE_UL_count_and_bounds [OF h r1 r2 r3 bl, of "[]"] obtain data' n log' where
    r: "readData_MIFARE_UL demo_mfrc522 (replicate 64 0xFF) [] = Inr (data', n, log')"
    and tk: "take (unat n) data' = concat (map block16 [of_nat :: nat \<Rightarrow> byte])"
    and lg': "log' = read_failed demo_mfrc522 [] STATUS_TIMEOUT"
    by auto
  from r e have "data' = [0, 1, 2, 3, 4, 5, 6, 7, 8, 9, 10, 11, 12, 13, 14, 15] @ replicate 48 0xFF"
    and "n = 16" by simp_all
  with tk have "block16 (of_nat :: nat \<Rightarrow> byte) = [0, 1, 2, 3, 4, 5, 6, 7, 8, 9, 10, 11, 12, 13, 14, 15]"
    by simp
  with e show ?thesis by (intro conjI)
qed

section \<open>A failed block read\<close>

text \<open>
  C7. For a MIFARE Ultralight card, when one of the block reads fails, the status
  record is still published with the card's \<open>sak\<close>, type name and hex-encoded UID; its
  \<open>data\<close> member is the hex encoding of the blocks read before the failure, and the
  logger receives \<open>MIFARE_Read() failed: \<close> followed by the name of the failing status.
\<close>

theorem failed_block_read_truncates_data:
  assumes "PICC_GetType mfrc522 (sak uid) = PICC_TYPE_MIFARE_UL"
    and "length (uidByte uid) = 10" and "unat (uid_size uid) \<le> 10"
    and "MIFARE_Read mfrc522 4 (\<lambda>k. 0) 18 = (s1, b1, c1)"
    and "MIFARE_Read mfrc522 8 b1 c1 = (s2, b2, c2)"
    and "MIFARE_Read mfrc522 12 b2 c2 = (s3, b3, c3)"
    and "s1 \<noteq> STATUS_OK \<or> s2 \<noteq> STATUS_OK \<or> s3 \<noteq> STATUS_OK"
  shows "publishCard mfrc522 uid log =
     Inr (JObject [(''sak'', JInt (uint (sak uid))),
                   (''type'', JString (PICC_GetTypeName mfrc522 PICC_TYPE_MIFARE_UL)),
                   (''uid'', JString (hex_of (take (unat (uid_size uid)) (uidByte uid)))),
                   (''data'', JString (hex_of (concat (map block16
                       (if s1 \<noteq> STATUS_OK then []
                        else if s2 \<noteq> STATUS_OK then [b1] else [b1, b2])))))],
          read_failed mfrc522 log
            (if s1 \<noteq> STATUS_OK then s1 else if s2 \<noteq> STATUS_OK then s2 else s3))"
proof -
  let ?data = "replicate 64 (0 :: byte)"
  have len: "48 \<le> length ?data" by simp
  note e = readData_MIFARE_UL_eq [OF len assms(4) assms(5) assms(6), of log]
  have l: "length (block16 b) = 16" for b by (simp add: block16_def)
  consider (f1) "s1 \<noteq> STATUS_OK"
    | (f2) "s1 = STATUS_OK" "s2 \<noteq> STATUS_OK"
    | (f3) "s1 = STATUS_OK" "s2 = STATUS_OK" "s3 \<noteq> STATUS_OK"
    using assms(7) by blast
  then show ?thesis
  proof cases
    case f1
    have rd: "(if PICC_GetType mfrc522 (sak uid) = PICC_TYPE_MIFARE_UL
              then readData_MIFARE_UL mfrc522 ?data log
              else Inr (?data, 0, log)) = Inr (?data, 0, read_failed mfrc522 log s1)"
      using e f1 assms(1) by simp
    from publishCard_eq [OF assms(2) assms(3) rd] f1 assms(1) show ?thesis by simp
  next
    case f2
    have rd: "(if PICC_GetType mfrc522 (sak uid) = PICC_TYPE_MIFARE_UL
              then readData_MIFARE_UL mfrc522 ?data log
              else Inr (?data, 0, log))
          = Inr (block16 b1 @ drop 16 ?data, 16, read_failed mfrc522 log s2)"
      using e f2 assms(1) by simp
    from publishCard_eq [OF assms(2) assms(3) rd] f2 assms(1) show ?thesis by (simp add: l)
  next
    case f3
    have rd: "(if PICC_GetType mfrc522 (sak uid) = PICC_TYPE_MIFARE_UL
              then readData_MIFARE_UL mfrc522 ?data log
              else Inr (?data, 0, log))
          = Inr (block16 b1 @ block16 b2 @ drop 32 ?data, 32, read_failed mfrc522 log s3)"
      using e f3 assms(1) by simp
    from publishCard_eq [OF assms(2) assms(3) rd] f3 assms(1) show ?thesis by (simp add: l)
  qed
qed

theorem failed_block_read_truncates_data_witness:
  "publishCard demo_mfrc522 card_ul [] =
     Inr (JObject [(''sak'', JInt 0),
                   (''type'', JString ''MIFARE Ultralight or Ultralight C''),
                   (''uid'', JString ''04A25C7B112233''),
                   (''data'', JString ''000102030405060708090A0B0C0D0E0F'')],
          ''MIFARE_Read() failed: Timeout in communication.'' @ [CHR 0x0D, CHR 0x0A])"
proof -
  have h1: "PICC_GetType demo_mfrc522 (sak card_ul) = PICC_TYPE_MIFARE_UL" by code_simp
  have h2: "length (uidByte card_ul) = 10" by code_simp
  have h3: "unat (uid_size card_ul) \<le> 10" by (simp add: card_ul_def)
  have r1: "MIFARE_Read demo_mfrc522 4 (\<lambda>k. 0) 18 = (STATUS_OK, of_nat, 18)"
    by (simp add: demo_mfrc522_def)
  have r2: "MIFARE_Read demo_mfrc522 8 of_nat 18 = (STATUS_TIMEOUT, of_nat, 18)"
    by (simp add: demo_mfrc522_def)
  have r3: "MIFARE_Read demo_mfrc522 12 of_nat 18 = (STATUS_TIMEOUT, of_nat, 18)"
    by (simp add: demo_mfrc522_def)
  have f: "STATUS_OK \<noteq> STATUS_OK \<or> STATUS_TIMEOUT \<noteq> STATUS_OK \<or> STATUS_TIMEOUT \<noteq> STATUS_OK"
    by simp
  have e: "publishCard demo_mfrc522 card_ul [] =
     Inr (JObject [(''sak'', JInt 0),
                   (''type'', JString ''MIFARE Ultralight or Ultralight C''),
                   (''uid'', JString ''04A25C7B112233''),
                   (''data'', JString ''000102030405060708090A0B0C0D0E0F'')],
          ''MIFARE_Read() failed: Timeout in communication.'' @ [CHR 0x0D, CHR 0x0A])"
    by code_simp
  from failed_block_read_truncates_data [OF h1 h2 h3 r1 r2 r3 f, of "[]"] e
  show ?thesis by simp
qed

section \<open>The data member of the status record\<close>

text \<open>
  C8, as the code has it. For a card whose type is not MIFARE Ultralight the status
  record still has the \<open>data\<close> member, with the empty string as its value, and nothing
  is logged; for a MIFARE Ultralight card the member is the hex encoding of the bytes
  \<open>readData_MIFARE_UL\<close> returned.
\<close>

theorem publishCard_data_field_always_present:
  assumes "length (uidByte uid) = 10" and "unat (uid_size uid) \<le> 10"
  shows "(PICC_GetType mfrc522 (sak uid) \<noteq> PICC_TYPE_MIFARE_UL \<longrightarrow>
            publishCard mfrc522 uid log =
              Inr (JObject [(''sak'', JInt (uint (sak uid))),
                            (''type'', JString (PICC_GetTypeName mfrc522 (PICC_GetType mfrc522 (sak uid)))),
                            (''uid'', JString (hex_of (take (unat (uid_size uid)) (uidByte uid)))),
                            (''data'', JString [])], log))
       \<and> (PICC_GetType mfrc522 (sak uid) = PICC_TYPE_MIFARE_UL \<longrightarrow>
            (\<exists>data n log'. readData_MIFARE_UL mfrc522 (replicate 64 0) log = Inr (data, n, log')
               \<and> publishCard mfrc522 uid log =
                   Inr (JObject [(''sak'', JInt (uint (sak uid))),
                                 (''type'', JString (PICC_GetTypeName mfrc522 PICC_TYPE_MIFARE_UL)),
                                 (''uid'', JString (hex_of (take (unat (uid_size uid)) (uidByte uid)))),
                                 (''data'', JString (hex_of (take (unat n) data)))], log')))"
proof (intro conjI impI)
  let ?data = "replicate 64 (0 :: byte)"
  {
    assume t: "PICC_GetType mfrc522 (sak uid) \<noteq> PICC_TYPE_MIFARE_UL"
    have rd: "(if PICC_GetType mfrc522 (sak uid) = PICC_TYPE_MIFARE_UL
              then readData_MIFARE_UL mfrc522 ?data log
              else Inr (?data, 0, log)) = Inr (?data, 0, log)"
      using t by simp
    from publishCard_eq [OF assms rd]
    show "publishCard mfrc522 uid log =
              Inr (JObject [(''sak'', JInt (uint (sak uid))),
                            (''type'', JString (PICC_GetTypeName mfrc522 (PICC_GetType mfrc522 (sak uid)))),
                            (''uid'', JString (hex_of (take (unat (uid_size uid)) (uidByte uid)))),
                            (''data'', JString [])], log)"
      by (simp add: hex_of_def)
  }
  {
    assume t: "PICC_GetType mfrc522 (sak uid) = PICC_TYPE_MIFARE_UL"
    have "length ?data = 64" by simp
    from readData_MIFARE_UL_cases [OF this, of mfrc522 log] obtain data n log' where
      r: "readData_MIFARE_UL mfrc522 ?data log = Inr (data, n, log')"
      and n: "n = 0 \<or> n = 16 \<or> n = 32 \<or> n = 48" and l: "length data = 64"
      by blast
    have n48: "unat n \<le> 48" using n by auto
    have rd: "(if PICC_GetType mfrc522 (sak uid) = PICC_TYPE_MIFARE_UL
              then readData_MIFARE_UL mfrc522 ?data log
              else Inr (?data, 0, log)) = Inr (data, n, log')"
      using t r by simp
    from publishCard_eq [OF assms rd n48 l] r t
    show "\<exists>data n log'. readData_MIFARE_UL mfrc522 (replicate 64 0) log = Inr (data, n, log')
               \<and> publishCard mfrc522 uid log =
                   Inr (JObject [(''sak'', JInt (uint (sak uid))),
                                 (''type'', JString (PICC_GetTypeName mfrc522 PICC_TYPE_MIFARE_UL)),
                                 (''uid'', JString (hex_of (take (unat (uid_size uid)) (uidByte uid)))),
                                 (''data'', JString (hex_of (take (unat n) data)))], log')"
      by auto
  }
qed

theorem publishCard_data_field_always_present_witness:
  "publishCard demo_mfrc522 card_1k [] =
     Inr (JObject [(''sak'', JInt 8), (''type'', JString ''MIFARE 1KB''),
                   (''uid'', JString ''04A25C7B''), (''data'', JString [])], [])"
proof -
  have h1: "length (uidByte card_1k) = 10" by code_simp
  have h2: "unat (uid_size card_1k) \<le> 10" by (simp add: card_1k_def)
  have t: "PICC_GetType demo_mfrc522 (sak card_1k) \<noteq> PICC_TYPE_MIFARE_UL" by code_simp
  have e: "JObject [(''sak'', JInt (uint (sak card_1k))),
                 (''type'', JString (PICC_GetTypeName demo_mfrc522 (PICC_GetType demo_mfrc522 (sak card_1k)))),
                 (''uid'', JString (hex_of (take (unat (uid_size card_1k)) (uidByte card_1k)))),
                 (''data'', JString [])]
      = JObject [(''sak'', JInt 8), (''type'', JString ''MIFARE 1KB''),
                   (''uid'', JString ''04A25C7B''), (''data'', JString [])]"
    by code_simp
  from publishCard_data_field_always_present [OF h1 h2, of demo_mfrc522 "[]", THEN conjunct1, THEN mp, OF t]
  show ?thesis unfolding e .
qed

text \<open>
  A MIFARE 1K card: the published record contains the key \<open>data\<close>.
\<close>

theorem unsupported_type_still_has_data_field_counterexample:
  "PICC_GetType demo_mfrc522 (sak card_1k) = PICC_TYPE_MIFARE_1K
   \<and> publishCard demo_mfrc522 card_1k [] =
       Inr (JObject [(''sak'', JInt 8), (''type'', JString ''MIFARE 1KB''),
                     (''uid'', JString ''04A25C7B''), (''data'', JString [])], [])
   \<and> containsKey [(''sak'', JInt 8), (''type'', JString ''MIFARE 1KB''),
                   (''uid'', JString ''04A25C7B''), (''data'', JString [])] ''data''"
  by code_simp

end
